theory Spec2Isabelle
  imports Main "HOL-Library.Word" "HOL-Library.Sublist"
begin

unbundle bit_operations_syntax

section \<open>Machine types and errors\<close>

type_synonym u8 = "8 word"
type_synonym u32 = "32 word"
type_synonym u64 = "64 word"

text \<open>
  The ways a run of the C code can leave its defined behaviour or fail:
  an array read past the \<open>count\<close> elements the caller passed, a failed \<open>malloc\<close>
  (followed by \<open>exit(1)\<close> or \<open>return 1\<close>), a shift of a 64-bit value by a negative
  amount or by 64 or more, and the two failures rng-extractor's \<open>main\<close> reports itself:
  "No input values read" and "Invalid method selected", both with exit status 1.
\<close>

datatype error =
  OutOfRange | AllocationFailure | ShiftOutOfRange | NoInputValues | InvalidMethod

section \<open>filter.c: dead-time filter\<close>

text \<open>
  \<^verbatim>\<open>
  for (size_t i = 1; i < count; i++) {
      if (timestamps[i] - filtered[j-1] > dead_time) {
          filtered[j++] = timestamps[i];
      }
  }
  \<close>
  The array \<open>filtered[0..j)\<close> is the list \<open>filtered\<close>; \<open>filtered[j-1]\<close> is its last
  element. The subtraction is the unsigned 64-bit one and wraps.
\<close>

fun dead_time_loop :: "u64 \<Rightarrow> u64 list \<Rightarrow> u64 list \<Rightarrow> u64 list" where
  "dead_time_loop dead_time filtered [] = filtered"
| "dead_time_loop dead_time filtered (t # ts) =
     (if t - last filtered > dead_time
      then dead_time_loop dead_time (filtered @ [t]) ts
      else dead_time_loop dead_time filtered ts)"

text \<open>
  \<open>apply_dead_time\<close>: \<open>count == 0\<close> returns no elements before anything is allocated;
  a failed \<open>malloc\<close> ends the process (\<open>malloc_ok\<close> is the outcome of the allocation);
  otherwise \<open>timestamps[0]\<close> is stored and the loop runs over the rest.
\<close>

definition apply_dead_time :: "bool \<Rightarrow> u64 list \<Rightarrow> u64 \<Rightarrow> error + u64 list" where
  "apply_dead_time malloc_ok timestamps dead_time =
     (case timestamps of
        [] \<Rightarrow> Inr []
      | t0 # rest \<Rightarrow>
          if \<not> malloc_ok then Inl AllocationFailure
          else Inr (dead_time_loop dead_time [t0] rest))"

subsection \<open>The samples the loop keeps\<close>

text \<open>\<open>kept d p ts\<close>: the samples of \<open>ts\<close> the loop appends when the last kept sample is \<open>p\<close>.\<close>

fun kept :: "u64 \<Rightarrow> u64 \<Rightarrow> u64 list \<Rightarrow> u64 list" where
  "kept d p [] = []"
| "kept d p (t # ts) = (if t - p > d then t # kept d t ts else kept d p ts)"

section \<open>rng-extractor.c and vomneu.c: extractors\<close>

subsection \<open>Packing bits into bytes\<close>

text \<open>
  The three bit-packing loops keep the bytes written so far (\<open>output[0..out_idx)\<close>, the
  field \<open>output_buf\<close>), the
  number of bits in the byte under construction and that byte.
\<close>

record pack_state =
  output_buf :: "u8 list"
  out_bit_pos :: u8
  current_byte :: u8

definition pack_init :: pack_state where
  "pack_init = \<lparr>output_buf = [], out_bit_pos = 0, current_byte = 0\<rparr>"

text \<open>
  \<^verbatim>\<open>
  current_byte = (current_byte << 1) | v;
  out_bit_pos++;
  if (out_bit_pos == 8) {
      output[out_idx++] = current_byte;
      current_byte = 0;
      out_bit_pos = 0;
  }
  \<close>
  The shift and the bitwise or are computed in \<open>int\<close> and stored back into a \<open>uint8_t\<close>,
  which keeps the low eight bits: the operations of \<open>8 word\<close>. In \<open>extract_lsbs\<close> the
  counter is an \<open>int\<close> named \<open>bit_count\<close>; it takes the values 0 to 8 only.
\<close>

definition shift_in :: "u8 \<Rightarrow> pack_state \<Rightarrow> pack_state" where
  "shift_in v st =
     (let cb = push_bit 1 (current_byte st) OR v;
          pos = out_bit_pos st + 1
      in if pos = 8
         then \<lparr>output_buf = output_buf st @ [cb], out_bit_pos = 0, current_byte = 0\<rparr>
         else \<lparr>output_buf = output_buf st, out_bit_pos = pos, current_byte = cb\<rparr>)"

text \<open>
  \<^verbatim>\<open>
  if (out_bit_pos > 0) {
      current_byte <<= (8 - out_bit_pos);
      output[out_idx++] = current_byte;
  }
  *output_len = out_idx;
  \<close>
\<close>

definition flush :: "pack_state \<Rightarrow> u8 list" where
  "flush st =
     (if out_bit_pos st > 0
      then output_buf st @ [push_bit (8 - unat (out_bit_pos st)) (current_byte st)]
      else output_buf st)"

subsection \<open>The loop bound \<open>count - 1\<close>\<close>

text \<open>
  \<open>count\<close> is a \<open>size_t\<close> (64 bits here), so \<open>count - 1\<close> is computed modulo \<open>2 ^ 64\<close>:
  adding \<open>2 ^ 64 - 1\<close> and reducing. For \<open>count = 0\<close> it is \<open>SIZE_MAX\<close>.
\<close>

definition size_t_pred :: "nat \<Rightarrow> nat" where
  "size_t_pred count = (count + (2 ^ 64 - 1)) mod 2 ^ 64"

subsection \<open>interval_compare\<close>

text \<open>
  \<^verbatim>\<open>
  for (size_t i = 0; i < count - 1; i += 2) {
      current_byte = (current_byte << 1) | (intervals[i] > intervals[i + 1]);
      ...
  }
  \<close>
  The array holds \<open>count\<close> elements; a read at an index from \<open>count\<close> on is outside it.
\<close>

function interval_compare_loop ::
  "u64 list \<Rightarrow> nat \<Rightarrow> nat \<Rightarrow> pack_state \<Rightarrow> error + pack_state" where
  "interval_compare_loop intervals bound i st =
     (if i < bound then
        (if i + 1 < length intervals
         then interval_compare_loop intervals bound (i + 2)
                (shift_in (of_bool (intervals ! i > intervals ! (i + 1))) st)
         else Inl OutOfRange)
      else Inr st)"
  by pat_completeness auto
termination
  by (relation "measure (\<lambda>(intervals, bound, i, st). bound - i)") auto

declare interval_compare_loop.simps [simp del]

definition interval_compare :: "u64 list \<Rightarrow> error + u8 list" where
  "interval_compare intervals =
     (case interval_compare_loop intervals (size_t_pred (length intervals)) 0 pack_init of
        Inl e \<Rightarrow> Inl e
      | Inr st \<Rightarrow> Inr (flush st))"

subsection \<open>von_neumann_extract and debias_bits\<close>

text \<open>
  \<^verbatim>\<open>
  for (size_t i = 0; i < input_len - 1; i += 2) {
      if (input[i] != input[i + 1]) {
          current_byte = (current_byte << 1) | input[i];
          ...
      }
  }
  \<close>
  The loop of \<open>debias_bits\<close> in vomneu.c is the same loop (its counter is called
  \<open>out_bit_idx\<close> and \<open>input[i]\<close> goes through the local \<open>debiased_bit\<close>).
\<close>

function von_neumann_loop ::
  "u8 list \<Rightarrow> nat \<Rightarrow> nat \<Rightarrow> pack_state \<Rightarrow> error + pack_state" where
  "von_neumann_loop input bound i st =
     (if i < bound then
        (if i + 1 < length input
         then von_neumann_loop input bound (i + 2)
                (if input ! i \<noteq> input ! (i + 1) then shift_in (input ! i) st else st)
         else Inl OutOfRange)
      else Inr st)"
  by pat_completeness auto
termination
  by (relation "measure (\<lambda>(input, bound, i, st). bound - i)") auto

declare von_neumann_loop.simps [simp del]

definition von_neumann_extract :: "u8 list \<Rightarrow> error + u8 list" where
  "von_neumann_extract input =
     (case von_neumann_loop input (size_t_pred (length input)) 0 pack_init of
        Inl e \<Rightarrow> Inl e
      | Inr st \<Rightarrow> Inr (flush st))"

text \<open>
  vomneu.c ends with
  \<^verbatim>\<open>
  // Only update output_len with complete bytes
  *output_len = out_idx;
  \<close>
  and has no step for the byte under construction.
\<close>

definition debias_bits :: "u8 list \<Rightarrow> error + u8 list" where
  "debias_bits input =
     (case von_neumann_loop input (size_t_pred (length input)) 0 pack_init of
        Inl e \<Rightarrow> Inl e
      | Inr st \<Rightarrow> Inr (output_buf st))"

subsection \<open>xor_fold\<close>

text \<open>
  \<^verbatim>\<open>
  for (size_t i = 0; i < count - 1; i++) {
      uint64_t xor_result = timestamps[i] ^ timestamps[i + 1];
      output[out_idx++] = xor_result & 0xFF;
  }
  \<close>
\<close>

function xor_fold_loop ::
  "u64 list \<Rightarrow> nat \<Rightarrow> nat \<Rightarrow> u8 list \<Rightarrow> error + u8 list" where
  "xor_fold_loop timestamps bound i out =
     (if i < bound then
        (if i + 1 < length timestamps
         then xor_fold_loop timestamps bound (i + 1)
                (out @ [ucast ((timestamps ! i XOR timestamps ! (i + 1)) AND 0xFF)])
         else Inl OutOfRange)
      else Inr out)"
  by pat_completeness auto
termination
  by (relation "measure (\<lambda>(timestamps, bound, i, out). bound - i)") auto

declare xor_fold_loop.simps [simp del]

definition xor_fold :: "u64 list \<Rightarrow> error + u8 list" where
  "xor_fold timestamps = xor_fold_loop timestamps (size_t_pred (length timestamps)) 0 []"

subsection \<open>extract_lsbs\<close>

text \<open>
  \<^verbatim>\<open>
  for (size_t i = 0; i < count; i++) {
      current_byte = (current_byte << 1) | ((values[i] >> bit_pos) & 1);
      ...
  }
  \<close>
  \<open>bit_pos\<close> is an \<open>int\<close>; shifting a 64-bit value by a negative amount or by 64 or more
  is undefined.
\<close>

fun extract_lsbs_loop :: "int \<Rightarrow> u64 list \<Rightarrow> pack_state \<Rightarrow> error + pack_state" where
  "extract_lsbs_loop bit_pos [] st = Inr st"
| "extract_lsbs_loop bit_pos (v # vs) st =
     (if bit_pos < 0 \<or> 64 \<le> bit_pos then Inl ShiftOutOfRange
      else extract_lsbs_loop bit_pos vs
             (shift_in (ucast (drop_bit (nat bit_pos) v AND 1)) st))"

definition extract_lsbs :: "u64 list \<Rightarrow> int \<Rightarrow> error + u8 list" where
  "extract_lsbs values bit_pos =
     (case extract_lsbs_loop bit_pos values pack_init of
        Inl e \<Rightarrow> Inl e
      | Inr st \<Rightarrow> Inr (flush st))"

subsection \<open>rng-extractor.c: main\<close>

text \<open>
  \<^verbatim>\<open>
  while (fgets(line, sizeof(line), stdin) && count < 10000000) { ... count++ ... }
  if (count == 0) {
      DEBUG_PRINT("No input values read\n");
      free(values);
      return 1;
  }
  ...
  switch (method) {
      case 0: interval_compare(values, count, output, &output_len); break;
      case 1: {
          ...
          for (size_t i = 0; i < count; i++) bits[i] = values[i] & 1;
          von_neumann_extract(bits, count, output, &output_len);
          ...
      }
      case 2: xor_fold(values, count, output, &output_len); break;
      case 3: extract_lsbs(values, count, bit_pos, output, &output_len); break;
      default: DEBUG_PRINT("Invalid method selected\n"); ... return 1;
  }
  fwrite(output, 1, output_len, stdout);
  \<close>
  \<open>input\<close> is the sequence of numbers on standard input, as the line reader accepts
  them; at most 10000000 are kept. \<open>malloc_ok\<close> says whether the allocations succeed.
  The result is the failure reported or the bytes written to standard output. These are
  the only calls of the four extractors in rng-extractor.c.
\<close>

definition rng_extractor_main :: "bool \<Rightarrow> int \<Rightarrow> int \<Rightarrow> u64 list \<Rightarrow> error + u8 list" where
  "rng_extractor_main malloc_ok method bit_pos input =
     (let values = take 10000000 input in
      if \<not> malloc_ok then Inl AllocationFailure
      else if values = [] then Inl NoInputValues
      else if method = 0 then interval_compare values
      else if method = 1 then von_neumann_extract (map (\<lambda>v. ucast (v AND 1)) values)
      else if method = 2 then xor_fold values
      else if method = 3 then extract_lsbs values bit_pos
      else Inl InvalidMethod)"

subsection \<open>The bit rules and the packing rule, as the specification words them\<close>

text \<open>
  IntervalCompare: disjoint pairs \<open>(a, b)\<close>, bit 1 if \<open>a > b\<close>, else 0; a trailing
  unpaired sample gives nothing.
\<close>

fun interval_bits :: "u64 list \<Rightarrow> bool list" where
  "interval_bits (a # b # rest) = (a > b) # interval_bits rest"
| "interval_bits rest = []"

text \<open>VonNeumann: disjoint pairs \<open>(a, b)\<close> of bits, emit \<open>a\<close> if they differ.\<close>

fun von_neumann_bits :: "bool list \<Rightarrow> bool list" where
  "von_neumann_bits (a # b # rest) =
     (if a \<noteq> b then a # von_neumann_bits rest else von_neumann_bits rest)"
| "von_neumann_bits rest = []"

text \<open>LsbExtract: one bit per value, bit \<open>pos\<close> of it.\<close>

definition lsb_bits :: "nat \<Rightarrow> u64 list \<Rightarrow> bool list" where
  "lsb_bits pos values = map (\<lambda>v. bit v pos) values"

text \<open>
  A group of at most eight bits as a byte, earliest bit most significant, the unused
  low-order positions zero.
\<close>

definition bits_value :: "bool list \<Rightarrow> u8" where
  "bits_value bs = foldl (\<lambda>acc b. push_bit 1 acc OR of_bool b) 0 bs"

definition byte_of_bits :: "bool list \<Rightarrow> u8" where
  "byte_of_bits bs = push_bit (8 - length bs) (bits_value bs)"

function pack_msb :: "bool list \<Rightarrow> u8 list" where
  "pack_msb bits =
     (if bits = [] then [] else byte_of_bits (take 8 bits) # pack_msb (drop 8 bits))"
  by pat_completeness auto
termination
  by (relation "measure length") auto

declare pack_msb.simps [simp del]


subsection \<open>Auxiliary notions for the extractor loops\<close>

text \<open>The state after the loop body has shifted in the values \<open>vs\<close>, one after the other.\<close>

definition shift_all :: "u8 list \<Rightarrow> pack_state \<Rightarrow> pack_state" where
  "shift_all vs st = foldl (\<lambda>s v. shift_in v s) st vs"

text \<open>
  The bytes the Von Neumann loop shifts in: the first element of every disjoint pair whose
  two elements differ.
\<close>

fun von_neumann_kept :: "u8 list \<Rightarrow> u8 list" where
  "von_neumann_kept (a # b # rest) =
     (if a \<noteq> b then a # von_neumann_kept rest else von_neumann_kept rest)"
| "von_neumann_kept rest = []"

text \<open>A byte that holds a single bit, as rng-extractor's \<open>main\<close> passes them (\<open>values[i] & 1\<close>).\<close>

definition is_bit :: "u8 \<Rightarrow> bool" where
  "is_bit b = (b = 0 \<or> b = 1)"

text \<open>
  What the specification says of a run that emitted \<open>bits\<close>, a number of bits that is not
  a multiple of 8, and returned the bytes \<open>out\<close>: the partly filled byte is there, after
  the full ones; its high-order positions hold the collected bits, earliest first, and
  its remaining low-order positions are zero.
\<close>

definition partial_byte_emitted :: "bool list \<Rightarrow> u8 list \<Rightarrow> bool" where
  "partial_byte_emitted bits out =
     (length out = length bits div 8 + 1 \<and>
      (\<forall>j<8. bit (last out) (7 - j)
                = (j < length bits mod 8 \<and> bits ! (8 * (length bits div 8) + j))))"

section \<open>filter.c: time-window aggregation\<close>

text \<open>
  \<^verbatim>\<open>
  size_t j = 0;
  size_t window_start = 0;
  uint64_t current_window = timestamps[0] / window_size * window_size;

  for (size_t i = 1; i <= count; i++) {
      uint64_t next_window = (i < count) ?
          (timestamps[i] / window_size * window_size) : current_window + window_size;
      if (next_window > current_window) {
          switch (mode) {
              case 0: windowed[j++] = timestamps[window_start]; break;
              case 1: windowed[j++] = timestamps[i-1]; break;
              case 2: {
                  uint64_t sum = 0;
                  for (size_t k = window_start; k < i; k++) sum += timestamps[k];
                  windowed[j++] = sum / (i - window_start);
                  break;
              }
          }
          window_start = i;
          current_window = next_window;
      }
  }
  \<close>
  All arithmetic on timestamps is unsigned 64-bit: \<open>+\<close> and \<open>*\<close> wrap, \<open>/\<close> is \<open>div\<close> on
  words. The \<open>switch\<close> has no default: another \<open>mode\<close> stores nothing.
\<close>

record window_state =
  windowed :: "u64 list"
  window_start :: nat
  current_window :: u64

definition next_window :: "u64 list \<Rightarrow> u64 \<Rightarrow> nat \<Rightarrow> u64 \<Rightarrow> u64" where
  "next_window timestamps window_size i cur =
     (if i < length timestamps then timestamps ! i div window_size * window_size
      else cur + window_size)"

text \<open>The inner loop: \<open>sum\<close> over \<open>timestamps[window_start..i)\<close>, starting from 0.\<close>

definition window_sum :: "u64 list \<Rightarrow> nat \<Rightarrow> nat \<Rightarrow> u64" where
  "window_sum timestamps start i =
     foldl (+) 0 (take (i - start) (drop start timestamps))"

definition emit_window :: "int \<Rightarrow> u64 list \<Rightarrow> nat \<Rightarrow> nat \<Rightarrow> u64 list \<Rightarrow> u64 list" where
  "emit_window mode timestamps start i out =
     (if mode = 0 then out @ [timestamps ! start]
      else if mode = 1 then out @ [timestamps ! (i - 1)]
      else if mode = 2 then out @ [window_sum timestamps start i div of_nat (i - start)]
      else out)"

function apply_window_loop ::
  "u64 list \<Rightarrow> u64 \<Rightarrow> int \<Rightarrow> nat \<Rightarrow> window_state \<Rightarrow> u64 list" where
  "apply_window_loop timestamps window_size mode i st =
     (if i \<le> length timestamps then
        (if next_window timestamps window_size i (current_window st) > current_window st
         then apply_window_loop timestamps window_size mode (i + 1)
                \<lparr>windowed = emit_window mode timestamps (window_start st) i (windowed st),
                 window_start = i,
                 current_window = next_window timestamps window_size i (current_window st)\<rparr>
         else apply_window_loop timestamps window_size mode (i + 1) st)
      else windowed st)"
  by pat_completeness auto
termination
  by (relation "measure (\<lambda>(timestamps, window_size, mode, i, st). Suc (length timestamps) - i)")
    auto

declare apply_window_loop.simps [simp del]

definition apply_window :: "bool \<Rightarrow> u64 list \<Rightarrow> u64 \<Rightarrow> int \<Rightarrow> error + u64 list" where
  "apply_window malloc_ok timestamps window_size mode =
     (if timestamps = [] \<or> window_size = 0 then Inr []
      else if \<not> malloc_ok then Inl AllocationFailure
      else Inr (apply_window_loop timestamps window_size mode 1
                  \<lparr>windowed = [], window_start = 0,
                   current_window = timestamps ! 0 div window_size * window_size\<rparr>))"

subsection \<open>Windows, as the specification words them\<close>

text \<open>
  The window floor of a sample, \<open>sample / windowSizeNs * windowSizeNs\<close> with integer floor
  division, on the numbers the 64-bit values stand for; the distinct floors spanned by an
  input; the mean of a window's samples, their sum divided by their count, rounded down.
\<close>

definition window_floor :: "nat \<Rightarrow> u64 \<Rightarrow> nat" where
  "window_floor w t = unat t div w * w"

definition distinct_floors :: "nat \<Rightarrow> u64 list \<Rightarrow> nat list" where
  "distinct_floors w ts = remdups (map (window_floor w) ts)"

definition floor_mean :: "u64 list \<Rightarrow> nat" where
  "floor_mean ts = sum_list (map unat ts) div length ts"

section \<open>trng.c: packets on the wire\<close>

text \<open>
  \<^verbatim>\<open>
  typedef struct {
      uint64_t timestamp_ns;
      uint64_t delta_ns;
      uint32_t sequence;
  } TRNGPacket;
  \<close>
\<close>

record TRNGPacket =
  timestamp_ns :: u64
  delta_ns :: u64
  sequence :: u32

subsection \<open>The host: byte order and alignment\<close>

text \<open>
  \<open>send_packet\<close> passes the object representation of a \<open>TRNGPacket\<close> to \<open>sendto\<close> and
  \<open>run_receive_mode\<close> receives into one, so the bytes on the wire depend on the host's
  byte order and on the size of the struct. The fields lie at offsets 0, 8 and 16; the
  size is 20 rounded up to the alignment of the struct, which is that of \<open>uint64_t\<close>:
  8 on x86-64, AArch64 and 32-bit ARM EABI, 4 on i386.
\<close>

record host =
  little_endian :: bool
  align_u64 :: nat

definition sizeof_TRNGPacket :: "host \<Rightarrow> nat" where
  "sizeof_TRNGPacket h = (20 + align_u64 h - 1) div align_u64 h * align_u64 h"

text \<open>Byte \<open>k\<close> of a word, counted from the least significant one.\<close>

definition byte_of :: "'a::len word \<Rightarrow> nat \<Rightarrow> u8" where
  "byte_of w k = ucast (drop_bit (8 * k) w)"

definition le_bytes :: "nat \<Rightarrow> 'a::len word \<Rightarrow> u8 list" where
  "le_bytes n w = map (byte_of w) [0..<n]"

definition be_bytes :: "nat \<Rightarrow> 'a::len word \<Rightarrow> u8 list" where
  "be_bytes n w = rev (le_bytes n w)"

definition of_be_bytes :: "u8 list \<Rightarrow> 'a::len word" where
  "of_be_bytes bs = foldl (\<lambda>acc b. push_bit 8 acc OR ucast b) 0 bs"

definition of_le_bytes :: "u8 list \<Rightarrow> 'a::len word" where
  "of_le_bytes bs = of_be_bytes (rev bs)"

text \<open>An \<open>n\<close>-byte integer in the host's memory, and read back from it.\<close>

definition store :: "host \<Rightarrow> nat \<Rightarrow> 'a::len word \<Rightarrow> u8 list" where
  "store h n w = (if little_endian h then le_bytes n w else be_bytes n w)"

definition load :: "host \<Rightarrow> u8 list \<Rightarrow> 'a::len word" where
  "load h bs = (if little_endian h then of_le_bytes bs else of_be_bytes bs)"

text \<open>
  \<open>htobe64\<close>, \<open>be64toh\<close>, \<open>htonl\<close> and \<open>ntohl\<close> are the identity on a big-endian host and
  reverse the bytes of their argument on a little-endian one.
\<close>

definition bswap64 :: "u64 \<Rightarrow> u64" where
  "bswap64 x = of_be_bytes (le_bytes 8 x)"

definition bswap32 :: "u32 \<Rightarrow> u32" where
  "bswap32 x = of_be_bytes (le_bytes 4 x)"

definition htobe64 :: "host \<Rightarrow> u64 \<Rightarrow> u64" where
  "htobe64 h x = (if little_endian h then bswap64 x else x)"

definition be64toh :: "host \<Rightarrow> u64 \<Rightarrow> u64" where
  "be64toh h x = (if little_endian h then bswap64 x else x)"

definition htonl :: "host \<Rightarrow> u32 \<Rightarrow> u32" where
  "htonl h x = (if little_endian h then bswap32 x else x)"

definition ntohl :: "host \<Rightarrow> u32 \<Rightarrow> u32" where
  "ntohl h x = (if little_endian h then bswap32 x else x)"

text \<open>
  The object representation of a \<open>TRNGPacket\<close>: the three fields and then the padding
  bytes \<open>pad\<close>, whose values nothing in the program sets. Reading a struct back from a
  buffer takes the fields from their offsets.
\<close>

definition struct_image :: "host \<Rightarrow> u8 list \<Rightarrow> TRNGPacket \<Rightarrow> u8 list" where
  "struct_image h pad p =
     store h 8 (timestamp_ns p) @ store h 8 (delta_ns p) @ store h 4 (sequence p) @ pad"

definition struct_of_image :: "host \<Rightarrow> u8 list \<Rightarrow> TRNGPacket" where
  "struct_of_image h buf =
     \<lparr>timestamp_ns = load h (take 8 buf),
      delta_ns = load h (take 8 (drop 8 buf)),
      sequence = load h (take 4 (drop 16 buf))\<rparr>"

subsection \<open>send_packet\<close>

text \<open>
  \<^verbatim>\<open>
  TRNGPacket net_packet;
  net_packet.timestamp_ns = htobe64(packet->timestamp_ns);
  net_packet.delta_ns = htobe64(packet->delta_ns);
  net_packet.sequence = htonl(packet->sequence);
  \<close>
\<close>

definition net_packet :: "host \<Rightarrow> TRNGPacket \<Rightarrow> TRNGPacket" where
  "net_packet h packet =
     \<lparr>timestamp_ns = htobe64 h (timestamp_ns packet),
      delta_ns = htobe64 h (delta_ns packet),
      sequence = htonl h (sequence packet)\<rparr>"

text \<open>
  \<open>send_packet\<close> returns -1 when \<open>inet_pton\<close> rejects the configured host (\<open>addr_ok\<close> is
  false) and sends nothing; otherwise it hands \<open>sizeof(net_packet)\<close> bytes starting at
  \<open>&net_packet\<close> to \<open>sendto\<close>, whose return value is \<open>sent\<close>, and returns -1 if that is
  negative and 0 if not. The result is the return value together with the datagram handed
  to \<open>sendto\<close>, if any.
\<close>

definition send_packet ::
  "host \<Rightarrow> bool \<Rightarrow> u8 list \<Rightarrow> int \<Rightarrow> TRNGPacket \<Rightarrow> int \<times> u8 list option" where
  "send_packet h addr_ok pad sent packet =
     (if \<not> addr_ok then (- 1, None)
      else (if sent < 0 then - 1 else 0,
            Some (take (sizeof_TRNGPacket h) (struct_image h pad (net_packet h packet)))))"

subsection \<open>run_receive_mode\<close>

text \<open>
  \<^verbatim>\<open>
  ssize_t received = recvfrom(sock, &packet, sizeof(packet), 0, ...);
  if (received < 0) {
      if (errno == EINTR) continue;
      perror("recvfrom");
      break;
  }
  if (received != sizeof(packet)) {
      fprintf(stderr, "Received invalid packet size: %zd\n", received);
      continue;
  }
  packet.timestamp_ns = be64toh(packet.timestamp_ns);
  packet.delta_ns = be64toh(packet.delta_ns);
  packet.sequence = ntohl(packet.sequence);
  printf("%ld\n", packet.delta_ns);
  \<close>
  One return of \<open>recvfrom\<close> is its return value, whether \<open>errno\<close> is \<open>EINTR\<close>, and the
  contents of the buffer \<open>packet\<close>.
\<close>

record recv_event =
  received :: int
  eintr :: bool
  buffer :: "u8 list"

datatype step = Retry | Stop | InvalidSize int | Accepted TRNGPacket

definition decode_packet :: "host \<Rightarrow> TRNGPacket \<Rightarrow> TRNGPacket" where
  "decode_packet h packet =
     \<lparr>timestamp_ns = be64toh h (timestamp_ns packet),
      delta_ns = be64toh h (delta_ns packet),
      sequence = ntohl h (sequence packet)\<rparr>"

definition receive_step :: "host \<Rightarrow> recv_event \<Rightarrow> step" where
  "receive_step h ev =
     (if received ev < 0 then (if eintr ev then Retry else Stop)
      else if received ev \<noteq> int (sizeof_TRNGPacket h) then InvalidSize (received ev)
      else Accepted (decode_packet h (struct_of_image h (buffer ev))))"

text \<open>
  The loop runs while \<open>running\<close> is set; the list holds the returns of \<open>recvfrom\<close> up to
  the moment the flag is cleared. The result is the sequence of deltas printed.
\<close>

fun receive_loop :: "host \<Rightarrow> recv_event list \<Rightarrow> u64 list" where
  "receive_loop h [] = []"
| "receive_loop h (ev # evs) =
     (case receive_step h ev of
        Retry \<Rightarrow> receive_loop h evs
      | Stop \<Rightarrow> []
      | InvalidSize n \<Rightarrow> receive_loop h evs
      | Accepted p \<Rightarrow> delta_ns p # receive_loop h evs)"

section \<open>Dead-time filter: properties\<close>

lemma dead_time_loop_kept:
  "filtered \<noteq> [] \<Longrightarrow>
   dead_time_loop d filtered ts = filtered @ kept d (last filtered) ts"
  by (induction ts arbitrary: filtered) simp_all

lemma apply_dead_time_Cons:
  "apply_dead_time True (t0 # rest) d = Inr (t0 # kept d t0 rest)"
  by (simp add: apply_dead_time_def dead_time_loop_kept)

lemma kept_subseq: "subseq (kept d p ts) ts"
  by (induction ts arbitrary: p) (auto intro: list_emb_Cons)

lemma kept_idem: "kept d p (kept d p ts) = kept d p ts"
  by (induction ts arbitrary: p) simp_all

lemma kept_gap_word:
  "0 < i \<Longrightarrow> i < length (p # kept d p ts) \<Longrightarrow>
   (p # kept d p ts) ! i - (p # kept d p ts) ! (i - 1) > d"
proof (induction ts arbitrary: p i)
  case Nil
  then show ?case by simp
next
  case (Cons t ts)
  show ?case
  proof (cases "t - p > d")
    case True
    show ?thesis
    proof (cases "i = 1")
      case True
      with \<open>t - p > d\<close> show ?thesis by simp
    next
      case False
      with Cons.prems True have "0 < i - 1" "i - 1 < length (t # kept d t ts)"
        by simp_all
      from Cons.IH [OF this] Cons.prems(1) False True show ?thesis
        by (cases i) (simp_all add: nth_Cons')
    qed
  next
    case False
    with Cons show ?thesis by simp
  qed
qed

lemma kept_ge:
  "sorted (p # ts) \<Longrightarrow> sorted (p # kept d p ts)"
proof (induction ts arbitrary: p)
  case Nil
  then show ?case by simp
next
  case (Cons t ts)
  from Cons.prems have s1: "sorted (t # ts)" and s2: "sorted (p # ts)" and pt: "p \<le> t"
    by auto
  show ?case
  proof (cases "t - p > d")
    case True
    with Cons.IH [OF s1] pt show ?thesis
      by auto
  next
    case False
    with Cons.IH [OF s2] show ?thesis by simp
  qed
qed

section \<open>Dead-time filter: claims\<close>

text \<open>
  C4. For a non-empty sequence of non-decreasing 64-bit timestamps and any dead time, the
  filter (when its buffer is allocated) keeps the first sample, returns a subsequence of
  the input in input order, and any two consecutive kept samples differ by strictly more
  than the dead time, as 64-bit values and as natural numbers; the empty input gives the
  empty output.
\<close>

theorem apply_dead_time_spaced_subseq:
  "apply_dead_time True [] d = Inr [] \<and>
   (ts \<noteq> [] \<and> sorted ts \<longrightarrow>
     (\<exists>out. apply_dead_time True ts d = Inr out \<and> out \<noteq> [] \<and> hd out = hd ts \<and>
        subseq out ts \<and>
        (\<forall>i. 0 < i \<and> i < length out \<longrightarrow>
           out ! i - out ! (i - 1) > d \<and>
           out ! (i - 1) \<le> out ! i \<and>
           unat (out ! i) - unat (out ! (i - 1)) > unat d)))"
proof (intro conjI impI)
  show "apply_dead_time True [] d = Inr []"
    by (simp add: apply_dead_time_def)
next
  assume a: "ts \<noteq> [] \<and> sorted ts"
  then obtain t0 rest where ts: "ts = t0 # rest" by (cases ts) auto
  let ?out = "t0 # kept d t0 rest"
  have srt: "sorted ?out" using a ts kept_ge by simp
  have gap: "\<forall>i. 0 < i \<and> i < length ?out \<longrightarrow>
           ?out ! i - ?out ! (i - 1) > d \<and>
           ?out ! (i - 1) \<le> ?out ! i \<and>
           unat (?out ! i) - unat (?out ! (i - 1)) > unat d"
  proof (intro allI impI)
    fix i assume i: "0 < i \<and> i < length ?out"
    then have g: "?out ! i - ?out ! (i - 1) > d"
      using kept_gap_word [of i t0 d rest] by simp
    have le: "?out ! (i - 1) \<le> ?out ! i"
      using srt i by (intro sorted_nth_mono) simp_all
    have "unat (?out ! i - ?out ! (i - 1)) = unat (?out ! i) - unat (?out ! (i - 1))"
      using le by (simp add: unat_sub)
    with g le show "?out ! i - ?out ! (i - 1) > d \<and>
           ?out ! (i - 1) \<le> ?out ! i \<and>
           unat (?out ! i) - unat (?out ! (i - 1)) > unat d"
      by (simp add: word_less_nat_alt)
  qed
  show "\<exists>out. apply_dead_time True ts d = Inr out \<and> out \<noteq> [] \<and> hd out = hd ts \<and>
        subseq out ts \<and>
        (\<forall>i. 0 < i \<and> i < length out \<longrightarrow>
           out ! i - out ! (i - 1) > d \<and>
           out ! (i - 1) \<le> out ! i \<and>
           unat (out ! i) - unat (out ! (i - 1)) > unat d)"
  proof (intro exI conjI)
    show "apply_dead_time True ts d = Inr ?out"
      by (simp add: ts apply_dead_time_Cons)
    show "?out \<noteq> []" by simp
    show "hd ?out = hd ts" by (simp add: ts)
    show "subseq ?out ts" by (simp add: ts kept_subseq)
    show "\<forall>i. 0 < i \<and> i < length ?out \<longrightarrow>
           ?out ! i - ?out ! (i - 1) > d \<and>
           ?out ! (i - 1) \<le> ?out ! i \<and>
           unat (?out ! i) - unat (?out ! (i - 1)) > unat d"
      by (rule gap)
  qed
qed

theorem apply_dead_time_spaced_subseq_witness:
  "apply_dead_time True [0, 50, 150, 151, 400] 100 = Inr [0, 150, 400] \<and>
   (\<exists>out. apply_dead_time True [0, 50, 150, 151, 400] 100 = Inr out \<and> out \<noteq> [] \<and>
      hd out = 0 \<and> subseq out [0, 50, 150, 151, 400] \<and>
      (\<forall>i. 0 < i \<and> i < length out \<longrightarrow>
           out ! i - out ! (i - 1) > 100 \<and>
           out ! (i - 1) \<le> out ! i \<and>
           unat (out ! i) - unat (out ! (i - 1)) > unat (100 :: u64)))"
proof -
  have s: "[0, 50, 150, 151, 400 :: u64] \<noteq> [] \<and> sorted [0, 50, 150, 151, 400 :: u64]"
    by simp
  have e: "apply_dead_time True [0, 50, 150, 151, 400] 100 = Inr [0, 150, 400]"
    by (simp add: apply_dead_time_def)
  from apply_dead_time_spaced_subseq [of 100 "[0, 50, 150, 151, 400]"] s e
  show ?thesis by simp
qed

text \<open>
  C9. Dead-time filtering is idempotent: filtering the filter's output again with the same
  threshold returns that output, for every sequence (sorted or not) and every threshold.
\<close>

theorem apply_dead_time_idempotent:
  "\<exists>out. apply_dead_time True s d = Inr out \<and> apply_dead_time True out d = Inr out"
proof (cases s)
  case Nil
  then show ?thesis by (simp add: apply_dead_time_def)
next
  case (Cons t0 rest)
  then show ?thesis by (simp add: apply_dead_time_Cons kept_idem)
qed

section \<open>Extractors: properties\<close>

subsection \<open>The packing loop computes the packing rule\<close>

lemma shift_all_Nil [simp]: "shift_all [] st = st"
  by (simp add: shift_all_def)

lemma shift_all_Cons [simp]: "shift_all (v # vs) st = shift_all vs (shift_in v st)"
  by (simp add: shift_all_def)

lemma bits_value_snoc: "bits_value (bs @ [b]) = push_bit 1 (bits_value bs) OR of_bool b"
  by (simp add: bits_value_def)

lemma bits_value_Nil [simp]: "bits_value [] = 0"
  by (simp add: bits_value_def)

lemma pack_msb_Nil [simp]: "pack_msb [] = []"
  by (simp add: pack_msb.simps)

lemma pack_msb_full:
  "length bs = 8 \<Longrightarrow> pack_msb (bs @ rest) = byte_of_bits bs # pack_msb rest"
  by (subst pack_msb.simps) auto

lemma pack_msb_single:
  "bs \<noteq> [] \<Longrightarrow> length bs \<le> 8 \<Longrightarrow> pack_msb bs = [byte_of_bits bs]"
  by (subst pack_msb.simps) simp

lemma u8_of_nat_eq_8: "n < 8 \<Longrightarrow> ((of_nat n :: u8) + 1 = 8) = (n = 7)"
proof -
  assume n: "n < 8"
  have "(of_nat n :: u8) + 1 = of_nat (Suc n)" by simp
  moreover have "((of_nat (Suc n) :: u8) = of_nat 8) = (Suc n = 8)"
    using n by (simp only: word_of_nat_eq_iff take_bit_eq_mod) simp
  ultimately show ?thesis by simp
qed

lemma flush_shift_all:
  "length pre < 8 \<Longrightarrow>
   flush (shift_all (map of_bool bits)
            \<lparr>output_buf = out, out_bit_pos = of_nat (length pre),
             current_byte = bits_value pre\<rparr>)
   = out @ pack_msb (pre @ bits)"
proof (induction bits arbitrary: out pre)
  case Nil
  show ?case
  proof (cases "pre = []")
    case True
    then show ?thesis by (simp add: flush_def)
  next
    case False
    from Nil have un: "unat (of_nat (length pre) :: u8) = length pre"
      by (simp add: unat_of_nat)
    with False have pos: "(0 :: u8) < of_nat (length pre)"
      by (simp add: word_less_nat_alt)
    from False Nil have "pack_msb (pre @ []) = [byte_of_bits pre]"
      by (simp add: pack_msb_single)
    then show ?thesis using pos un
      by (simp add: flush_def byte_of_bits_def)
  qed
next
  case (Cons b bits)
  show ?case
  proof (cases "length pre = 7")
    case True
    then have st: "shift_in (of_bool b)
          \<lparr>output_buf = out, out_bit_pos = of_nat (length pre),
           current_byte = bits_value pre\<rparr>
        = \<lparr>output_buf = out @ [bits_value (pre @ [b])],
           out_bit_pos = of_nat (length ([] :: bool list)), current_byte = bits_value []\<rparr>"
      by (simp add: shift_in_def bits_value_snoc)
    have "pack_msb ((pre @ [b]) @ bits) = byte_of_bits (pre @ [b]) # pack_msb bits"
      using True by (intro pack_msb_full) simp_all
    then have pm: "pack_msb (pre @ b # bits) = bits_value (pre @ [b]) # pack_msb bits"
      using True by (simp add: byte_of_bits_def)
    show ?thesis
      unfolding list.map shift_all_Cons st
      using Cons.IH [of "[]" "out @ [bits_value (pre @ [b])]"] pm
      by simp
  next
    case False
    with Cons.prems have lt: "length (pre @ [b]) < 8" by simp
    have ne: "(of_nat (length pre) :: u8) + 1 \<noteq> 8"
      using u8_of_nat_eq_8 [of "length pre"] Cons.prems False by simp
    have st: "shift_in (of_bool b)
          \<lparr>output_buf = out, out_bit_pos = of_nat (length pre),
           current_byte = bits_value pre\<rparr>
        = \<lparr>output_buf = out, out_bit_pos = of_nat (length (pre @ [b])),
           current_byte = bits_value (pre @ [b])\<rparr>"
      using ne by (simp add: shift_in_def bits_value_snoc Let_def)
    show ?thesis
      unfolding list.map shift_all_Cons st using Cons.IH [OF lt, of out] by simp
  qed
qed

lemma flush_shift_all_init: "flush (shift_all (map of_bool bits) pack_init) = pack_msb bits"
  using flush_shift_all [of "[]" bits "[]"] by (simp add: pack_init_def)

text \<open>The bit counter after the loop: the number of bits shifted in, modulo 8.\<close>

lemma out_bit_pos_shift_in:
  assumes "unat (out_bit_pos st) < 8"
  shows "unat (out_bit_pos (shift_in v st)) = (unat (out_bit_pos st) + 1) mod 8"
proof -
  let ?p = "out_bit_pos st"
  have u: "unat (?p + 1) = unat ?p + 1"
    using assms by (simp add: unat_word_ariths)
  have "(?p + 1 = 8) = (unat (?p + 1) = 8)"
    by (simp add: word_unat_eq_iff)
  with u have e: "(?p + 1 = 8) = (unat ?p = 7)" by simp
  show ?thesis
  proof (cases "unat ?p = 7")
    case True
    with e show ?thesis by (simp add: shift_in_def Let_def)
  next
    case False
    with assms have "(unat ?p + 1) mod 8 = unat ?p + 1" by simp
    with False e u show ?thesis by (simp add: shift_in_def Let_def)
  qed
qed

lemma out_bit_pos_shift_all:
  "unat (out_bit_pos st) < 8 \<Longrightarrow>
   unat (out_bit_pos (shift_all vs st)) = (unat (out_bit_pos st) + length vs) mod 8"
proof (induction vs arbitrary: st)
  case Nil
  then show ?case by simp
next
  case (Cons v vs)
  have lt: "unat (out_bit_pos (shift_in v st)) < 8"
    using out_bit_pos_shift_in [OF Cons.prems, of v] by simp
  have "unat (out_bit_pos (shift_all (v # vs) st))
          = ((unat (out_bit_pos st) + 1) mod 8 + length vs) mod 8"
    using Cons.IH [OF lt] out_bit_pos_shift_in [OF Cons.prems, of v] by simp
  also have "\<dots> = (unat (out_bit_pos st) + 1 + length vs) mod 8"
    by (rule mod_add_left_eq)
  finally show ?case by simp
qed

lemma output_buf_butlast_flush:
  assumes "length bits mod 8 \<noteq> 0"
  shows "output_buf (shift_all (map of_bool bits) pack_init) = butlast (pack_msb bits)"
proof -
  let ?st = "shift_all (map of_bool bits) pack_init"
  have "unat (out_bit_pos ?st) = length bits mod 8"
    using out_bit_pos_shift_all [of pack_init "map of_bool bits"]
    by (simp add: pack_init_def)
  with assms have "out_bit_pos ?st > 0"
    by (simp add: word_less_nat_alt)
  then have "flush ?st = output_buf ?st @ [push_bit (8 - unat (out_bit_pos ?st)) (current_byte ?st)]"
    by (simp add: flush_def)
  then have "butlast (flush ?st) = output_buf ?st" by simp
  then show ?thesis by (simp add: flush_shift_all_init)
qed

subsection \<open>The bits of the packed bytes\<close>

lemma bit_shift_or:
  "bit (push_bit 1 w OR (of_bool b :: u8)) m = (if m = 0 then b else m < 8 \<and> bit w (m - 1))"
  unfolding bit_or_iff bit_push_bit_iff bit_of_bool_iff possible_bit_word
  by (cases m) auto

lemma bit_bits_value:
  "length c \<le> 8 \<Longrightarrow> bit (bits_value c) m = (m < length c \<and> c ! (length c - 1 - m))"
proof (induction c arbitrary: m rule: rev_induct)
  case Nil
  then show ?case by simp
next
  case (snoc b c)
  then have len: "length c < 8" by simp
  have unf: "bit (bits_value (c @ [b])) m
               = (if m = 0 then b else m < 8 \<and> bit (bits_value c) (m - 1))"
    by (simp only: bits_value_snoc bit_shift_or)
  show ?case
  proof (cases m)
    case 0
    with unf show ?thesis by simp
  next
    case (Suc m')
    from len have ih: "bit (bits_value c) m' = (m' < length c \<and> c ! (length c - 1 - m'))"
      by (intro snoc.IH) simp
    show ?thesis
    proof (cases "m' < length c")
      case True
      then have "length c - Suc m' < length c" by arith
      then have "(c @ [b]) ! (length c - Suc m') = c ! (length c - 1 - m')"
        by (simp add: nth_append)
      moreover from True len have "Suc m' < 8" by simp
      ultimately show ?thesis using unf Suc ih True by simp
    next
      case False
      with unf Suc ih show ?thesis by simp
    qed
  qed
qed

lemma bit_byte_of_bits:
  assumes "length c \<le> 8" "k < 8"
  shows "bit (byte_of_bits c) (7 - k) = (k < length c \<and> c ! k)"
proof (cases "k < length c")
  case True
  with assms have "7 - k - (8 - length c) = length c - 1 - k" "8 - length c \<le> 7 - k"
    "length c - 1 - (length c - 1 - k) = k" "length c - 1 - k < length c" "7 - k < 8"
    by simp_all
  with True assms show ?thesis
    by (simp add: byte_of_bits_def bit_push_bit_iff bit_bits_value)
next
  case False
  with assms have "\<not> 8 - length c \<le> 7 - k" by simp
  with False show ?thesis
    by (simp add: byte_of_bits_def bit_push_bit_iff)
qed

lemma length_pack_msb: "length (pack_msb bits) = (length bits + 7) div 8"
proof (induction bits rule: pack_msb.induct)
  case (1 bits)
  show ?case
  proof (cases "bits = []")
    case True
    then show ?thesis by simp
  next
    case False
    then have "pack_msb bits = byte_of_bits (take 8 bits) # pack_msb (drop 8 bits)"
      by (subst pack_msb.simps) simp
    moreover have "Suc ((n - 8 + 7) div 8) = (n + 7) div 8" if "0 < n" for n :: nat
    proof (cases "n < 8")
      case True
      with that have "(n + 7) div 8 = 1" by (intro div_nat_eqI) simp_all
      with True show ?thesis by simp
    next
      case False
      then obtain m where "n = m + 8" by (metis add.commute le_Suc_ex not_less)
      then show ?thesis by simp
    qed
    from this [of "length bits"] False
    have "Suc ((length bits - 8 + 7) div 8) = (length bits + 7) div 8" by simp
    ultimately show ?thesis using "1.IH" [OF False]
      by simp
  qed
qed

lemma bit_pack_msb:
  "k < 8 * length (pack_msb bits) \<Longrightarrow>
   bit (pack_msb bits ! (k div 8)) (7 - k mod 8) = (k < length bits \<and> bits ! k)"
proof (induction bits arbitrary: k rule: pack_msb.induct)
  case (1 bits)
  show ?case
  proof (cases "bits = []")
    case True
    with "1.prems" show ?thesis by simp
  next
    case False
    then have unf: "pack_msb bits = byte_of_bits (take 8 bits) # pack_msb (drop 8 bits)"
      by (subst pack_msb.simps) simp
    show ?thesis
    proof (cases "k < 8")
      case True
      then show ?thesis
        using bit_byte_of_bits [of "take 8 bits" k] by (simp add: unf)
    next
      case False
      then obtain k' where k: "k = k' + 8" by (metis add.commute le_Suc_ex not_less)
      with "1.prems" unf have "k' < 8 * length (pack_msb (drop 8 bits))" by simp
      from "1.IH" [OF \<open>bits \<noteq> []\<close> this]
      have ih: "bit (pack_msb (drop 8 bits) ! (k' div 8)) (7 - k' mod 8)
                  = (k' < length (drop 8 bits) \<and> drop 8 bits ! k')" .
      have d: "(k' + 8) div 8 = Suc (k' div 8)" "(k' + 8) mod 8 = k' mod 8" by simp_all
      have "(k' < length (drop 8 bits) \<and> drop 8 bits ! k')
              = (k' + 8 < length bits \<and> bits ! (k' + 8))"
        by (cases "k' + 8 < length bits") (auto simp: add.commute)
      with ih show ?thesis
        unfolding unf k d by simp
    qed
  qed
qed

lemma pack_msb_partial_byte:
  assumes "length bits mod 8 \<noteq> 0"
  shows "length (pack_msb bits) = length bits div 8 + 1"
    and "j < 8 \<Longrightarrow> bit (last (pack_msb bits)) (7 - j)
           = (j < length bits mod 8 \<and> bits ! (8 * (length bits div 8) + j))"
proof -
  have "(n + 7) div 8 = n div 8 + 1" if "n mod 8 \<noteq> 0" for n :: nat
  proof -
    have "n + 7 = (n div 8 + 1) * 8 + (n mod 8 - 1)" using that
      by (simp add: algebra_simps)
    moreover have "n mod 8 - 1 < 8" by simp
    ultimately show ?thesis
      by (metis div_mult_self3 div_less add.right_neutral zero_less_numeral
          less_numeral_extra(3))
  qed
  from this [OF assms] show len: "length (pack_msb bits) = length bits div 8 + 1"
    by (simp add: length_pack_msb)
  assume j: "j < 8"
  let ?k = "8 * (length bits div 8) + j"
  from len have ne: "pack_msb bits \<noteq> []" by auto
  have l: "last (pack_msb bits) = pack_msb bits ! (?k div 8)"
    using j len by (simp add: last_conv_nth [OF ne])
  have "?k < 8 * length (pack_msb bits)" using j len by simp
  from bit_pack_msb [OF this] j have
    "bit (pack_msb bits ! (?k div 8)) (7 - j) = (?k < length bits \<and> bits ! ?k)"
    by simp
  moreover have "(?k < length bits) = (j < length bits mod 8)"
    by presburger
  ultimately show "bit (last (pack_msb bits)) (7 - j)
           = (j < length bits mod 8 \<and> bits ! (8 * (length bits div 8) + j))"
    using l by simp
qed

subsection \<open>The loops shift in the bits of the bit rules\<close>

lemma size_t_pred_pos: "0 < n \<Longrightarrow> n < 2 ^ 64 \<Longrightarrow> size_t_pred n = n - 1"
proof -
  assume a: "0 < n" "n < 2 ^ 64"
  then have "n + (2 ^ 64 - 1) = (n - 1) + 2 ^ 64" by simp
  then have "size_t_pred n = ((n - 1) + 2 ^ 64) mod 2 ^ 64"
    by (simp only: size_t_pred_def)
  also have "\<dots> = (n - 1) mod 2 ^ 64" by (rule mod_add_self2)
  also have "\<dots> = n - 1" using a by (intro mod_less) simp
  finally show ?thesis .
qed

lemma interval_bits_short: "length ys \<le> 1 \<Longrightarrow> interval_bits ys = []"
  by (cases ys rule: interval_bits.cases) simp_all

lemma von_neumann_kept_short: "length ys \<le> 1 \<Longrightarrow> von_neumann_kept ys = []"
  by (cases ys rule: von_neumann_kept.cases) simp_all

lemma drop_two: "i + 1 < length xs \<Longrightarrow> drop i xs = xs ! i # xs ! (i + 1) # drop (i + 2) xs"
  by (simp add: Cons_nth_drop_Suc)

lemma interval_compare_loop_bits:
  "bound = length xs - 1 \<Longrightarrow>
   interval_compare_loop xs bound i st
     = Inr (shift_all (map of_bool (interval_bits (drop i xs))) st)"
proof (induction xs bound i st rule: interval_compare_loop.induct)
  case (1 intervals bound i st)
  show ?case
  proof (cases "i < bound")
    case True
    with "1.prems" have in_range: "i + 1 < length intervals" by simp
    from "1.IH" [OF True in_range "1.prems"] True in_range show ?thesis
      by (subst interval_compare_loop.simps) (simp add: drop_two)
  next
    case False
    with "1.prems" have "length (drop i intervals) \<le> 1" by simp
    then have "interval_bits (drop i intervals) = []" by (rule interval_bits_short)
    with False show ?thesis
      by (subst interval_compare_loop.simps) simp
  qed
qed

lemma interval_compare_packs:
  assumes "xs \<noteq> []" "length xs < 2 ^ 64"
  shows "interval_compare xs = Inr (pack_msb (interval_bits xs))"
proof -
  from assms have "size_t_pred (length xs) = length xs - 1"
    by (simp add: size_t_pred_pos)
  then show ?thesis
    by (simp add: interval_compare_def interval_compare_loop_bits flush_shift_all_init)
qed

lemma von_neumann_loop_kept:
  "bound = length xs - 1 \<Longrightarrow>
   von_neumann_loop xs bound i st = Inr (shift_all (von_neumann_kept (drop i xs)) st)"
proof (induction xs bound i st rule: von_neumann_loop.induct)
  case (1 input bound i st)
  show ?case
  proof (cases "i < bound")
    case True
    with "1.prems" have in_range: "i + 1 < length input" by simp
    from "1.IH" [OF True in_range "1.prems"] True in_range show ?thesis
      by (subst von_neumann_loop.simps) (simp add: drop_two)
  next
    case False
    with "1.prems" have "length (drop i input) \<le> 1" by simp
    then have "von_neumann_kept (drop i input) = []"
      by (rule von_neumann_kept_short)
    with False show ?thesis
      by (subst von_neumann_loop.simps) simp
  qed
qed

lemma von_neumann_kept_bits:
  "list_all is_bit xs \<Longrightarrow>
   von_neumann_kept xs = map of_bool (von_neumann_bits (map (\<lambda>b. b \<noteq> 0) xs))"
  by (induction xs rule: von_neumann_kept.induct) (auto simp: is_bit_def)

lemma von_neumann_extract_packs:
  assumes "xs \<noteq> []" "length xs < 2 ^ 64" "list_all is_bit xs"
  shows "von_neumann_extract xs = Inr (pack_msb (von_neumann_bits (map (\<lambda>b. b \<noteq> 0) xs)))"
proof -
  from assms have "size_t_pred (length xs) = length xs - 1"
    by (simp add: size_t_pred_pos)
  then show ?thesis using assms(3)
    by (simp add: von_neumann_extract_def von_neumann_loop_kept von_neumann_kept_bits
        flush_shift_all_init)
qed

lemma debias_bits_complete_bytes:
  assumes "xs \<noteq> []" "length xs < 2 ^ 64" "list_all is_bit xs"
    and "length (von_neumann_bits (map (\<lambda>b. b \<noteq> 0) xs)) mod 8 \<noteq> 0"
  shows "debias_bits xs = Inr (butlast (pack_msb (von_neumann_bits (map (\<lambda>b. b \<noteq> 0) xs))))"
proof -
  from assms have "size_t_pred (length xs) = length xs - 1"
    by (simp add: size_t_pred_pos)
  then show ?thesis using assms(3,4)
    by (simp add: debias_bits_def von_neumann_loop_kept von_neumann_kept_bits
        output_buf_butlast_flush)
qed

lemma lsb_byte: "(ucast (drop_bit n (v :: u64) AND 1) :: u8) = of_bool (bit v n)"
proof -
  have "drop_bit n v AND 1 = (if bit v n then 1 else 0)"
    by (simp add: and_one_eq mod2_eq_if bit_iff_odd_drop_bit)
  then show ?thesis by simp
qed

lemma extract_lsbs_loop_bits:
  "0 \<le> bit_pos \<Longrightarrow> bit_pos < 64 \<Longrightarrow>
   extract_lsbs_loop bit_pos vs st
     = Inr (shift_all (map of_bool (lsb_bits (nat bit_pos) vs)) st)"
  by (induction vs arbitrary: st) (simp_all add: lsb_bits_def lsb_byte)

lemma extract_lsbs_packs:
  "0 \<le> bit_pos \<Longrightarrow> bit_pos < 64 \<Longrightarrow>
   extract_lsbs vs bit_pos = Inr (pack_msb (lsb_bits (nat bit_pos) vs))"
  by (simp add: extract_lsbs_def extract_lsbs_loop_bits flush_shift_all_init)

subsection \<open>Pairs and the trailing sample\<close>

lemma length_interval_bits: "length (interval_bits xs) = length xs div 2"
  by (induction xs rule: interval_bits.induct) simp_all

lemma interval_bits_nth:
  "k < length xs div 2 \<Longrightarrow> interval_bits xs ! k = (xs ! (2 * k) > xs ! (2 * k + 1))"
proof (induction xs arbitrary: k rule: interval_bits.induct)
  case (1 a b rest)
  then show ?case by (cases k) simp_all
qed simp_all

lemma interval_bits_butlast:
  "odd (length xs) \<Longrightarrow> interval_bits (butlast xs) = interval_bits xs"
  by (induction xs rule: interval_bits.induct) auto

lemma von_neumann_kept_butlast:
  "odd (length xs) \<Longrightarrow> von_neumann_kept (butlast xs) = von_neumann_kept xs"
  by (induction xs rule: von_neumann_kept.induct) auto

lemma von_neumann_extract_kept:
  assumes "xs \<noteq> []" "length xs < 2 ^ 64"
  shows "von_neumann_extract xs = Inr (flush (shift_all (von_neumann_kept xs) pack_init))"
proof -
  from assms have "size_t_pred (length xs) = length xs - 1"
    by (simp add: size_t_pred_pos)
  then show ?thesis
    by (simp add: von_neumann_extract_def von_neumann_loop_kept)
qed

text \<open>
  From three samples on, an odd-length input gives what the input without its last sample
  gives, run against run.
\<close>

lemma pairwise_odd_length_ge_3:
  assumes "odd (length xs)" "3 \<le> length xs" "length xs < 2 ^ 64"
    and "odd (length ys)" "3 \<le> length ys" "length ys < 2 ^ 64"
  shows "interval_compare xs = interval_compare (butlast xs)"
    and "von_neumann_extract ys = von_neumann_extract (butlast ys)"
proof -
  from assms have "xs \<noteq> []" "butlast xs \<noteq> []" "length (butlast xs) < 2 ^ 64"
    by (auto simp: butlast_conv_take)
  with assms show "interval_compare xs = interval_compare (butlast xs)"
    by (simp add: interval_compare_packs interval_bits_butlast)
  from assms have "ys \<noteq> []" "butlast ys \<noteq> []" "length (butlast ys) < 2 ^ 64"
    by (auto simp: butlast_conv_take)
  with assms show "von_neumann_extract ys = von_neumann_extract (butlast ys)"
    by (simp add: von_neumann_extract_kept von_neumann_kept_butlast)
qed

subsection \<open>No run of rng-extractor's main reads out of range\<close>

lemma xor_fold_loop_returns:
  "bound = length xs - 1 \<Longrightarrow> \<exists>r. xor_fold_loop xs bound i out = Inr r"
proof (induction xs bound i out rule: xor_fold_loop.induct)
  case (1 timestamps bound i out)
  show ?case
  proof (cases "i < bound")
    case True
    with "1.prems" have in_range: "i + 1 < length timestamps" by simp
    from "1.IH" [OF True in_range "1.prems"] True in_range show ?thesis
      by (subst xor_fold_loop.simps) simp
  next
    case False
    then show ?thesis
      by (subst xor_fold_loop.simps) simp
  qed
qed

lemma xor_fold_returns:
  assumes "xs \<noteq> []" "length xs < 2 ^ 64"
  shows "\<exists>r. xor_fold xs = Inr r"
proof -
  from assms have "size_t_pred (length xs) = length xs - 1"
    by (simp add: size_t_pred_pos)
  then show ?thesis
    by (simp add: xor_fold_def xor_fold_loop_returns)
qed

lemma extract_lsbs_loop_in_range: "extract_lsbs_loop bit_pos vs st \<noteq> Inl OutOfRange"
  by (induction vs arbitrary: st) simp_all

lemma extract_lsbs_in_range: "extract_lsbs vs bit_pos \<noteq> Inl OutOfRange"
  using extract_lsbs_loop_in_range [of bit_pos vs pack_init]
  by (auto simp: extract_lsbs_def split: sum.splits)

lemma rng_extractor_main_in_range:
  "rng_extractor_main malloc_ok method bit_pos input \<noteq> Inl OutOfRange"
proof -
  let ?vals = "take 10000000 input"
  have len: "length ?vals < 2 ^ 64"
  proof -
    have "length ?vals \<le> 10000000" by simp
    also have "(10000000 :: nat) < 2 ^ 64" by simp
    finally show ?thesis .
  qed
  show ?thesis
  proof (cases "?vals = []")
    case True
    then show ?thesis by (simp add: rng_extractor_main_def)
  next
    case False
    from False len have "interval_compare ?vals \<noteq> Inl OutOfRange"
      by (simp add: interval_compare_packs)
    moreover from False len
    have "von_neumann_extract (map (\<lambda>v. ucast (v AND 1)) ?vals) \<noteq> Inl OutOfRange"
      by (subst von_neumann_extract_kept) simp_all
    moreover from xor_fold_returns [OF False len]
    have "xor_fold ?vals \<noteq> Inl OutOfRange" by auto
    moreover have "extract_lsbs ?vals bit_pos \<noteq> Inl OutOfRange"
      by (rule extract_lsbs_in_range)
    ultimately show ?thesis
      by (simp add: rng_extractor_main_def Let_def)
  qed
qed

section \<open>Extractors: claims\<close>

lemma pack_msb_partial_byte_emitted:
  "length bits mod 8 \<noteq> 0 \<Longrightarrow> partial_byte_emitted bits (pack_msb bits)"
  unfolding partial_byte_emitted_def
  using pack_msb_partial_byte [of bits] by blast

text \<open>
  C2, as the code has it. In rng-extractor.c, a run of \<open>interval_compare\<close>,
  \<open>von_neumann_extract\<close> (on bytes that are 0 or 1) or \<open>extract_lsbs\<close> (bit position
  0 to 63) that emits a number of bits that is not a multiple of 8 returns the partly
  filled byte as its last byte, the collected bits in its high-order positions and zeros
  below. \<open>debias_bits\<close> of vomneu.c returns the same bytes without that last byte: it
  writes complete bytes only.
\<close>

theorem partial_byte_rng_extractor:
  "(length intervals < 2 ^ 64 \<and> length (interval_bits intervals) mod 8 \<noteq> 0 \<longrightarrow>
      (\<exists>out. interval_compare intervals = Inr out \<and>
             partial_byte_emitted (interval_bits intervals) out)) \<and>
   (length input < 2 ^ 64 \<and> list_all is_bit input \<and>
    length (von_neumann_bits (map (\<lambda>b. b \<noteq> 0) input)) mod 8 \<noteq> 0 \<longrightarrow>
      (\<exists>out. von_neumann_extract input = Inr out \<and>
             partial_byte_emitted (von_neumann_bits (map (\<lambda>b. b \<noteq> 0) input)) out \<and>
             debias_bits input = Inr (butlast out))) \<and>
   (0 \<le> bit_pos \<and> bit_pos < 64 \<and> length (lsb_bits (nat bit_pos) values) mod 8 \<noteq> 0 \<longrightarrow>
      (\<exists>out. extract_lsbs values bit_pos = Inr out \<and>
             partial_byte_emitted (lsb_bits (nat bit_pos) values) out))"
proof (intro conjI impI)
  assume a: "length intervals < 2 ^ 64 \<and> length (interval_bits intervals) mod 8 \<noteq> 0"
  then have "intervals \<noteq> []" by auto
  with a show "\<exists>out. interval_compare intervals = Inr out \<and>
             partial_byte_emitted (interval_bits intervals) out"
    by (simp add: interval_compare_packs pack_msb_partial_byte_emitted)
next
  assume a: "length input < 2 ^ 64 \<and> list_all is_bit input \<and>
    length (von_neumann_bits (map (\<lambda>b. b \<noteq> 0) input)) mod 8 \<noteq> 0"
  then have "input \<noteq> []" by auto
  with a show "\<exists>out. von_neumann_extract input = Inr out \<and>
             partial_byte_emitted (von_neumann_bits (map (\<lambda>b. b \<noteq> 0) input)) out \<and>
             debias_bits input = Inr (butlast out)"
    by (simp add: von_neumann_extract_packs debias_bits_complete_bytes
        pack_msb_partial_byte_emitted)
next
  assume "0 \<le> bit_pos \<and> bit_pos < 64 \<and> length (lsb_bits (nat bit_pos) values) mod 8 \<noteq> 0"
  then show "\<exists>out. extract_lsbs values bit_pos = Inr out \<and>
             partial_byte_emitted (lsb_bits (nat bit_pos) values) out"
    by (simp add: extract_lsbs_packs pack_msb_partial_byte_emitted)
qed

theorem partial_byte_rng_extractor_witness:
  "(length [10, 5, 3, 8, 7, 7 :: u64] < 2 ^ 64 \<and>
    length (interval_bits [10, 5, 3, 8, 7, 7]) mod 8 \<noteq> 0) \<and>
   (\<exists>out. interval_compare [10, 5, 3, 8, 7, 7] = Inr out \<and>
          partial_byte_emitted (interval_bits [10, 5, 3, 8, 7, 7]) out) \<and>
   (length [0, 1, 1, 0, 1, 1, 0, 0 :: u8] < 2 ^ 64 \<and>
    list_all is_bit [0, 1, 1, 0, 1, 1, 0, 0] \<and>
    length (von_neumann_bits (map (\<lambda>b. b \<noteq> 0) [0, 1, 1, 0, 1, 1, 0, 0 :: u8])) mod 8 \<noteq> 0) \<and>
   (\<exists>out. von_neumann_extract [0, 1, 1, 0, 1, 1, 0, 0] = Inr out \<and>
          partial_byte_emitted
            (von_neumann_bits (map (\<lambda>b. b \<noteq> 0) [0, 1, 1, 0, 1, 1, 0, 0 :: u8])) out \<and>
          debias_bits [0, 1, 1, 0, 1, 1, 0, 0] = Inr (butlast out)) \<and>
   ((0 :: int) \<le> 1 \<and> (1 :: int) < 64 \<and> length (lsb_bits (nat 1) [1, 3, 2]) mod 8 \<noteq> 0) \<and>
   (\<exists>out. extract_lsbs [1, 3, 2] 1 = Inr out \<and>
          partial_byte_emitted (lsb_bits (nat 1) [1, 3, 2]) out)"
proof -
  have h1: "length [10, 5, 3, 8, 7, 7 :: u64] < 2 ^ 64 \<and>
    length (interval_bits [10, 5, 3, 8, 7, 7]) mod 8 \<noteq> 0"
    by simp
  have h2: "length [0, 1, 1, 0, 1, 1, 0, 0 :: u8] < 2 ^ 64 \<and>
    list_all is_bit [0, 1, 1, 0, 1, 1, 0, 0] \<and>
    length (von_neumann_bits (map (\<lambda>b. b \<noteq> 0) [0, 1, 1, 0, 1, 1, 0, 0 :: u8])) mod 8 \<noteq> 0"
    by (simp add: is_bit_def)
  have h3: "(0 :: int) \<le> 1 \<and> (1 :: int) < 64 \<and> length (lsb_bits (nat 1) [1, 3, 2]) mod 8 \<noteq> 0"
    by (simp add: lsb_bits_def)
  from partial_byte_rng_extractor
    [of "[10, 5, 3, 8, 7, 7]" "[0, 1, 1, 0, 1, 1, 0, 0]" 1 "[1, 3, 2]"] h1 h2 h3
  show ?thesis by blast
qed

text \<open>
  C2 as stated fails for \<open>debias_bits\<close>: on the two bits 0, 1 the Von Neumann rule emits
  one bit, and \<open>debias_bits\<close> returns no byte at all.
\<close>

theorem debias_bits_drops_partial_byte:
  "von_neumann_bits [False, True] = [False] \<and>
   length (von_neumann_bits [False, True]) mod 8 \<noteq> 0 \<and>
   debias_bits [0, 1] = Inr [] \<and>
   \<not> partial_byte_emitted (von_neumann_bits [False, True]) []"
  by (simp add: debias_bits_def von_neumann_loop.simps size_t_pred_def pack_init_def
      shift_in_def Let_def partial_byte_emitted_def)

text \<open>
  Called on its own with \<open>count = 0\<close>, which no caller in the repository does, the loop
  bound \<open>count - 1\<close> of the three loops is \<open>SIZE_MAX\<close> and elements 0 and 1 are read.
\<close>

lemma direct_call_count_zero:
  "interval_compare [] = Inl OutOfRange \<and>
   von_neumann_extract [] = Inl OutOfRange \<and>
   xor_fold [] = Inl OutOfRange \<and>
   extract_lsbs [] bit_pos = Inr []"
  by (simp add: interval_compare_def interval_compare_loop.simps
      von_neumann_extract_def von_neumann_loop.simps
      xor_fold_def xor_fold_loop.simps
      extract_lsbs_def size_t_pred_def pack_init_def flush_def)

text \<open>
  C3, as the code has it. On an empty input rng-extractor's \<open>main\<close> does not return an
  empty output: it reports "No input values read" and fails with exit status 1, for every
  method, before any extractor is called. No run of \<open>main\<close>, on any input, reads an
  element out of range. On a single sample the two pairwise extractors and \<open>xor_fold\<close>
  return no bytes and no error, alone and through \<open>main\<close>.
\<close>

theorem empty_input_rejected_by_main:
  "rng_extractor_main True method bit_pos [] = Inl NoInputValues \<and>
   rng_extractor_main malloc_ok method bit_pos input \<noteq> Inl OutOfRange \<and>
   interval_compare [a] = Inr [] \<and>
   von_neumann_extract [b] = Inr [] \<and>
   xor_fold [a] = Inr [] \<and>
   rng_extractor_main True 0 bit_pos [a] = Inr [] \<and>
   rng_extractor_main True 1 bit_pos [a] = Inr [] \<and>
   rng_extractor_main True 2 bit_pos [a] = Inr []"
proof -
  have one: "interval_compare [a] = Inr []" "von_neumann_extract [c] = Inr []"
    "xor_fold [a] = Inr []" for c
    by (simp_all add: interval_compare_def interval_compare_loop.simps
        von_neumann_extract_def von_neumann_loop.simps
        xor_fold_def xor_fold_loop.simps size_t_pred_def pack_init_def flush_def)
  have "rng_extractor_main True method bit_pos [] = Inl NoInputValues"
    by (simp add: rng_extractor_main_def)
  moreover have "rng_extractor_main malloc_ok method bit_pos input \<noteq> Inl OutOfRange"
    by (rule rng_extractor_main_in_range)
  moreover have "rng_extractor_main True 0 bit_pos [a] = Inr []"
    "rng_extractor_main True 1 bit_pos [a] = Inr []"
    "rng_extractor_main True 2 bit_pos [a] = Inr []"
    by (simp_all add: rng_extractor_main_def one)
  ultimately show ?thesis using one by simp
qed

text \<open>
  C3 as stated fails: the empty input gives a failure, not an empty output, whichever
  method is selected.
\<close>

theorem empty_input_is_a_failure:
  "rng_extractor_main True 0 0 [] = Inl NoInputValues \<and>
   rng_extractor_main True 1 0 [] = Inl NoInputValues \<and>
   rng_extractor_main True 2 0 [] = Inl NoInputValues \<and>
   rng_extractor_main True 3 0 [] = Inl NoInputValues \<and>
   rng_extractor_main True 0 0 [] \<noteq> Inr []"
  by (simp add: rng_extractor_main_def)

text \<open>
  C7. On a non-empty input \<open>interval_compare\<close> returns the packed bits of the rule
  "disjoint pairs \<open>(a, b)\<close>, 1 if \<open>a > b\<close>, else 0": one bit per pair, bit \<open>k\<close> compares
  elements \<open>2k\<close> and \<open>2k + 1\<close>, and bit \<open>k\<close> is stored in byte \<open>k div 8\<close> at position
  \<open>7 - k mod 8\<close>. Equal intervals give 0, and the input 10, 5, 3, 8, 7, 7 gives the bits
  1, 0, 0 and the single byte 0x80.
\<close>

theorem interval_compare_pairs_msb:
  "(intervals \<noteq> [] \<and> length intervals < 2 ^ 64 \<longrightarrow>
      interval_compare intervals = Inr (pack_msb (interval_bits intervals)) \<and>
      length (interval_bits intervals) = length intervals div 2 \<and>
      (\<forall>k < length intervals div 2.
         interval_bits intervals ! k = (intervals ! (2 * k) > intervals ! (2 * k + 1))) \<and>
      (\<forall>k < length (interval_bits intervals).
         bit (pack_msb (interval_bits intervals) ! (k div 8)) (7 - k mod 8)
           = interval_bits intervals ! k)) \<and>
   interval_bits [a, a] = [False] \<and>
   interval_bits [10, 5, 3, 8, 7, 7] = [True, False, False] \<and>
   interval_compare [10, 5, 3, 8, 7, 7] = Inr [0x80]"
proof (intro conjI impI allI)
  assume a: "intervals \<noteq> [] \<and> length intervals < 2 ^ 64"
  then show "interval_compare intervals = Inr (pack_msb (interval_bits intervals))"
    by (simp add: interval_compare_packs)
  show "length (interval_bits intervals) = length intervals div 2"
    by (rule length_interval_bits)
  fix k
  show "k < length intervals div 2 \<Longrightarrow>
         interval_bits intervals ! k = (intervals ! (2 * k) > intervals ! (2 * k + 1))"
    by (rule interval_bits_nth)
  assume k: "k < length (interval_bits intervals)"
  have "length (interval_bits intervals) \<le> 8 * ((length (interval_bits intervals) + 7) div 8)"
    by presburger
  with k have "k < 8 * length (pack_msb (interval_bits intervals))"
    by (simp add: length_pack_msb)
  from bit_pack_msb [OF this] k
  show "bit (pack_msb (interval_bits intervals) ! (k div 8)) (7 - k mod 8)
           = interval_bits intervals ! k"
    by simp
next
  show "interval_bits [a, a] = [False]" by simp
  show "interval_bits [10, 5, 3, 8, 7, 7] = [True, False, False]" by simp
  show "interval_compare [10, 5, 3, 8, 7, 7] = Inr [0x80]"
    by (simp add: interval_compare_def interval_compare_loop.simps size_t_pred_def
        pack_init_def shift_in_def flush_def)
qed

theorem interval_compare_pairs_msb_witness:
  "([10, 5, 3, 8, 7, 7 :: u64] \<noteq> [] \<and> length [10, 5, 3, 8, 7, 7 :: u64] < 2 ^ 64) \<and>
   interval_compare [10, 5, 3, 8, 7, 7]
     = Inr (pack_msb (interval_bits [10, 5, 3, 8, 7, 7])) \<and>
   length (interval_bits [10, 5, 3, 8, 7, 7]) = length [10, 5, 3, 8, 7, 7 :: u64] div 2 \<and>
   interval_bits [7, 7] = [False]"
proof -
  have h: "[10, 5, 3, 8, 7, 7 :: u64] \<noteq> [] \<and> length [10, 5, 3, 8, 7, 7 :: u64] < 2 ^ 64"
    by simp
  from interval_compare_pairs_msb [of "[10, 5, 3, 8, 7, 7]" 7] h
  show ?thesis by blast
qed

text \<open>
  C10. For an input of odd length (below \<open>2 ^ 64\<close>, as a \<open>size_t\<close> count is), the
  output of \<open>interval_compare\<close> is the packing of the bits of the pairs of the input
  without its last sample, and so is that of \<open>von_neumann_extract\<close> (of the bytes it
  keeps from those pairs; of the Von Neumann bits when the bytes are 0 or 1). It does not
  change when the last sample is replaced by any other, and it is the output of the run
  on the shortened input whenever that input is not empty.
\<close>

theorem pairwise_trailing_sample_ignored:
  "(odd (length xs) \<and> length xs < 2 ^ 64 \<longrightarrow>
      interval_compare xs = Inr (pack_msb (interval_bits (butlast xs))) \<and>
      interval_compare (butlast xs @ [x]) = interval_compare xs \<and>
      (butlast xs \<noteq> [] \<longrightarrow> interval_compare xs = interval_compare (butlast xs))) \<and>
   (odd (length ys) \<and> length ys < 2 ^ 64 \<longrightarrow>
      von_neumann_extract ys
        = Inr (flush (shift_all (von_neumann_kept (butlast ys)) pack_init)) \<and>
      (list_all is_bit ys \<longrightarrow>
         von_neumann_extract ys
           = Inr (pack_msb (von_neumann_bits (map (\<lambda>b. b \<noteq> 0) (butlast ys))))) \<and>
      von_neumann_extract (butlast ys @ [y]) = von_neumann_extract ys \<and>
      (butlast ys \<noteq> [] \<longrightarrow> von_neumann_extract ys = von_neumann_extract (butlast ys)))"
proof (intro conjI impI)
  assume a: "odd (length xs) \<and> length xs < 2 ^ 64"
  then have ne: "xs \<noteq> []" by auto
  from a ne show p: "interval_compare xs = Inr (pack_msb (interval_bits (butlast xs)))"
    by (simp add: interval_compare_packs interval_bits_butlast)
  from a ne have "odd (length (butlast xs @ [x]))" "length (butlast xs @ [x]) < 2 ^ 64"
    by simp_all
  then have "interval_compare (butlast xs @ [x])
               = Inr (pack_msb (interval_bits (butlast (butlast xs @ [x]))))"
    by (subst interval_compare_packs) (simp_all add: interval_bits_butlast del: butlast_snoc)
  with p show "interval_compare (butlast xs @ [x]) = interval_compare xs"
    by simp
  assume "butlast xs \<noteq> []"
  moreover have "length (butlast xs) \<le> length xs" by simp
  with a have "length (butlast xs) < 2 ^ 64" by (meson le_less_trans)
  ultimately show "interval_compare xs = interval_compare (butlast xs)"
    using p by (simp add: interval_compare_packs)
next
  assume a: "odd (length ys) \<and> length ys < 2 ^ 64"
  then have ne: "ys \<noteq> []" by auto
  from a ne show p: "von_neumann_extract ys
        = Inr (flush (shift_all (von_neumann_kept (butlast ys)) pack_init))"
    by (simp add: von_neumann_extract_kept von_neumann_kept_butlast)
  from a ne have "odd (length (butlast ys @ [y]))" "length (butlast ys @ [y]) < 2 ^ 64"
    by simp_all
  then have "von_neumann_extract (butlast ys @ [y])
               = Inr (flush (shift_all (von_neumann_kept (butlast (butlast ys @ [y]))) pack_init))"
    by (subst von_neumann_extract_kept) (simp_all add: von_neumann_kept_butlast del: butlast_snoc)
  with p show "von_neumann_extract (butlast ys @ [y]) = von_neumann_extract ys"
    by simp
  {
    assume "butlast ys \<noteq> []"
    moreover have "length (butlast ys) \<le> length ys" by simp
  with a have "length (butlast ys) < 2 ^ 64" by (meson le_less_trans)
    ultimately show "von_neumann_extract ys = von_neumann_extract (butlast ys)"
      using p by (simp add: von_neumann_extract_kept)
  }
  assume b: "list_all is_bit ys"
  have "set (butlast ys) \<subseteq> set ys" by (auto dest: in_set_butlastD)
  with b have "list_all is_bit (butlast ys)" by (auto simp: list_all_iff)
  with p show "von_neumann_extract ys
           = Inr (pack_msb (von_neumann_bits (map (\<lambda>b. b \<noteq> 0) (butlast ys))))"
    by (simp add: von_neumann_kept_bits flush_shift_all_init)
qed

theorem pairwise_trailing_sample_ignored_witness:
  "(odd (length [10, 5, 3 :: u64]) \<and> length [10, 5, 3 :: u64] < 2 ^ 64) \<and>
   interval_compare [10, 5, 3] = Inr (pack_msb (interval_bits (butlast [10, 5, 3]))) \<and>
   interval_compare (butlast [10, 5, 3] @ [9]) = interval_compare [10, 5, 3] \<and>
   butlast [10, 5, 3 :: u64] \<noteq> [] \<and>
   interval_compare [10, 5, 3] = interval_compare (butlast [10, 5, 3]) \<and>
   (odd (length [0, 1, 1 :: u8]) \<and> length [0, 1, 1 :: u8] < 2 ^ 64) \<and>
   list_all is_bit [0, 1, 1] \<and>
   von_neumann_extract [0, 1, 1]
     = Inr (pack_msb (von_neumann_bits (map (\<lambda>b. b \<noteq> 0) (butlast [0, 1, 1 :: u8])))) \<and>
   von_neumann_extract (butlast [0, 1, 1] @ [0]) = von_neumann_extract [0, 1, 1] \<and>
   butlast [0, 1, 1 :: u8] \<noteq> [] \<and>
   von_neumann_extract [0, 1, 1] = von_neumann_extract (butlast [0, 1, 1]) \<and>
   (odd (length [7 :: u64]) \<and> length [7 :: u64] < 2 ^ 64) \<and>
   interval_compare [7] = Inr (pack_msb (interval_bits (butlast [7])))"
proof -
  have h1: "odd (length [10, 5, 3 :: u64]) \<and> length [10, 5, 3 :: u64] < 2 ^ 64"
    and h2: "odd (length [0, 1, 1 :: u8]) \<and> length [0, 1, 1 :: u8] < 2 ^ 64"
    and h3: "butlast [10, 5, 3 :: u64] \<noteq> []" "butlast [0, 1, 1 :: u8] \<noteq> []"
    and h4: "list_all is_bit [0, 1, 1]"
    and h5: "odd (length [7 :: u64]) \<and> length [7 :: u64] < 2 ^ 64"
    by (simp_all add: is_bit_def)
  from pairwise_trailing_sample_ignored [of "[10, 5, 3]" 9 "[0, 1, 1]" 0] h1 h2 h3 h4
  have "interval_compare [10, 5, 3] = Inr (pack_msb (interval_bits (butlast [10, 5, 3])))"
    "interval_compare (butlast [10, 5, 3] @ [9]) = interval_compare [10, 5, 3]"
    "interval_compare [10, 5, 3] = interval_compare (butlast [10, 5, 3])"
    "von_neumann_extract [0, 1, 1]
       = Inr (pack_msb (von_neumann_bits (map (\<lambda>b. b \<noteq> 0) (butlast [0, 1, 1 :: u8]))))"
    "von_neumann_extract (butlast [0, 1, 1] @ [0]) = von_neumann_extract [0, 1, 1]"
    "von_neumann_extract [0, 1, 1] = von_neumann_extract (butlast [0, 1, 1])"
    by blast+
  moreover from pairwise_trailing_sample_ignored [of "[7]" 7 "[0, 1, 1]" 0] h5
  have "interval_compare [7] = Inr (pack_msb (interval_bits (butlast [7])))"
    by blast
  ultimately show ?thesis using h1 h2 h3 h4 h5 by blast
qed

section \<open>Time windows: claims\<close>

text \<open>
  C5. The last window is closed by comparing \<open>current_window + window_size\<close> with
  \<open>current_window\<close>. The sum wraps at \<open>2 ^ 64\<close>: for the single sample \<open>2 ^ 64 - 1\<close> and
  window size 1 it is 0, the comparison fails and nothing is emitted, in every mode,
  although the input spans one window floor.
\<close>

theorem last_window_lost_on_wrap:
  "sorted [18446744073709551615 :: u64] \<and>
   distinct_floors 1 [18446744073709551615] = [18446744073709551615] \<and>
   apply_window True [18446744073709551615] 1 0 = Inr [] \<and>
   apply_window True [18446744073709551615] 1 1 = Inr [] \<and>
   apply_window True [18446744073709551615] 1 2 = Inr []"
  by (simp add: apply_window_def apply_window_loop.simps next_window_def emit_window_def
      window_sum_def distinct_floors_def window_floor_def)

text \<open>
  C8. The mean is computed from a 64-bit \<open>sum\<close> that wraps. Eleven samples of
  1700000000000000000 ns (a time of day in November 2023, in nanoseconds since 1970) in
  one window of one second add up to more than \<open>2 ^ 64\<close>; the value emitted is
  23023266026404398, the mean is 1700000000000000000. Two samples of \<open>2 ^ 63\<close> give 0.
\<close>

theorem mean_sum_wraps:
  "apply_window True
     [1700000000000000000, 1700000000000000000, 1700000000000000000, 1700000000000000000,
      1700000000000000000, 1700000000000000000, 1700000000000000000, 1700000000000000000,
      1700000000000000000, 1700000000000000000, 1700000000000000000]
     1000000000 2 = Inr [23023266026404398] \<and>
   floor_mean
     [1700000000000000000, 1700000000000000000, 1700000000000000000, 1700000000000000000,
      1700000000000000000, 1700000000000000000, 1700000000000000000, 1700000000000000000,
      1700000000000000000, 1700000000000000000, 1700000000000000000]
     = 1700000000000000000 \<and>
   apply_window True [9223372036854775808, 9223372036854775808] 1 2 = Inr [0] \<and>
   floor_mean [9223372036854775808, 9223372036854775808] = 9223372036854775808"
  by (simp add: apply_window_def apply_window_loop.simps next_window_def emit_window_def
      window_sum_def floor_mean_def numeral_2_eq_2 [symmetric])

section \<open>Packets: properties\<close>

subsection \<open>Bytes of a word\<close>

lemma of_be_bytes_Nil [simp]: "of_be_bytes [] = 0"
  by (simp add: of_be_bytes_def)

lemma of_be_bytes_snoc: "of_be_bytes (bs @ [b]) = push_bit 8 (of_be_bytes bs) OR ucast b"
  by (simp add: of_be_bytes_def)

lemma bit_of_be_bytes:
  "bit (of_be_bytes bs :: 'a::len word) m =
     (m < LENGTH('a) \<and> m div 8 < length bs \<and> bit (rev bs ! (m div 8)) (m mod 8))"
proof (induction bs arbitrary: m rule: rev_induct)
  case Nil
  then show ?case by simp
next
  case (snoc b bs)
  have unf: "bit (of_be_bytes (bs @ [b]) :: 'a word) m =
      ((8 \<le> m \<and> m < LENGTH('a) \<and> bit (of_be_bytes bs :: 'a word) (m - 8)) \<or>
       (m < LENGTH('a) \<and> bit b m))"
    unfolding of_be_bytes_snoc bit_or_iff bit_push_bit_iff possible_bit_word bit_ucast_iff
    by auto
  show ?case
  proof (cases "m < 8")
    case True
    then have "m div 8 = 0" "m mod 8 = m" by simp_all
    with True unf show ?thesis by auto
  next
    case False
    then obtain m' where m: "m = m' + 8" by (metis add.commute le_Suc_ex not_less)
    have d: "(m' + 8) div 8 = Suc (m' div 8)" "(m' + 8) mod 8 = m' mod 8" by simp_all
    have nb: "\<not> bit b (m' + 8)" using bit_imp_le_length [of b "m' + 8"] by auto
    have ih: "bit (of_be_bytes bs :: 'a word) m' =
        (m' < LENGTH('a) \<and> m' div 8 < length bs \<and> bit (rev bs ! (m' div 8)) (m' mod 8))"
      by (rule snoc.IH)
    have "bit (of_be_bytes (bs @ [b]) :: 'a word) (m' + 8) =
        (m' + 8 < LENGTH('a) \<and> bit (of_be_bytes bs :: 'a word) m')"
      using unf nb unfolding m by auto
    also have "\<dots> = (m' + 8 < LENGTH('a) \<and> m' div 8 < length bs \<and>
        bit (rev bs ! (m' div 8)) (m' mod 8))"
      unfolding ih by auto
    finally show ?thesis
      unfolding m d by simp
  qed
qed

lemma bit_byte_of: "bit (byte_of (w :: 'a::len word) k) j = (j < 8 \<and> bit w (8 * k + j))"
  by (auto simp: byte_of_def bit_ucast_iff bit_drop_bit_eq add.commute)

lemma length_le_bytes [simp]: "length (le_bytes n w) = n"
  by (simp add: le_bytes_def)

lemma length_be_bytes [simp]: "length (be_bytes n w) = n"
  by (simp add: be_bytes_def)

lemma of_be_bytes_be_bytes:
  "LENGTH('a) \<le> 8 * n \<Longrightarrow> of_be_bytes (be_bytes n w) = (w :: 'a::len word)"
proof (rule bit_eqI)
  fix m
  assume len: "LENGTH('a) \<le> 8 * n"
  show "bit (of_be_bytes (be_bytes n w) :: 'a word) m = bit w m"
  proof (cases "m < LENGTH('a)")
    case True
    with len have k: "m div 8 < n" by (simp add: less_mult_imp_div_less mult.commute)
    have "8 * (m div 8) + m mod 8 = m" by simp
    with True k show ?thesis
      by (simp add: bit_of_be_bytes be_bytes_def le_bytes_def bit_byte_of)
  next
    case False
    then show ?thesis by (auto simp: bit_of_be_bytes dest: bit_imp_le_length)
  qed
qed

lemma byte_of_of_be_bytes:
  assumes "k < length bs" "8 * length bs \<le> LENGTH('a)"
  shows "byte_of (of_be_bytes bs :: 'a::len word) k = rev bs ! k"
proof (rule bit_eqI)
  fix j
  show "bit (byte_of (of_be_bytes bs :: 'a word) k) j = bit (rev bs ! k) j"
  proof (cases "j < 8")
    case True
    then have d: "(8 * k + j) div 8 = k" "(8 * k + j) mod 8 = j" by simp_all
    from True assms have "8 * k + j < LENGTH('a)" by simp
    with True assms show ?thesis
      by (simp add: bit_byte_of bit_of_be_bytes d)
  next
    case False
    then show ?thesis by (auto simp: bit_byte_of dest: bit_imp_le_length)
  qed
qed

lemma le_bytes_of_be_bytes:
  assumes "length bs = n" "8 * n \<le> LENGTH('a)"
  shows "le_bytes n (of_be_bytes bs :: 'a::len word) = rev bs"
proof (rule nth_equalityI)
  show "length (le_bytes n (of_be_bytes bs :: 'a word)) = length (rev bs)"
    using assms by simp
  fix i assume "i < length (le_bytes n (of_be_bytes bs :: 'a word))"
  then have "i < n" by simp
  with assms show "le_bytes n (of_be_bytes bs :: 'a word) ! i = rev bs ! i"
    by (simp add: le_bytes_def byte_of_of_be_bytes)
qed

lemma store_htobe64: "store h 8 (htobe64 h x) = be_bytes 8 x"
  by (simp add: store_def htobe64_def bswap64_def le_bytes_of_be_bytes be_bytes_def)

lemma store_htonl: "store h 4 (htonl h x) = be_bytes 4 x"
  by (simp add: store_def htonl_def bswap32_def le_bytes_of_be_bytes be_bytes_def)

lemma load_be64toh: "length bs = 8 \<Longrightarrow> be64toh h (load h bs) = of_be_bytes bs"
proof -
  assume l: "length bs = 8"
  then have "le_bytes 8 (of_be_bytes (rev bs) :: u64) = bs"
    using le_bytes_of_be_bytes [of "rev bs" 8, where ?'a = 64] by simp
  then show ?thesis
    by (simp add: load_def be64toh_def bswap64_def of_le_bytes_def)
qed

lemma load_ntohl: "length bs = 4 \<Longrightarrow> ntohl h (load h bs) = of_be_bytes bs"
proof -
  assume l: "length bs = 4"
  then have "le_bytes 4 (of_be_bytes (rev bs) :: u32) = bs"
    using le_bytes_of_be_bytes [of "rev bs" 4, where ?'a = 32] by simp
  then show ?thesis
    by (simp add: load_def ntohl_def bswap32_def of_le_bytes_def)
qed

lemma struct_image_net_packet:
  "struct_image h pad (net_packet h p)
     = be_bytes 8 (timestamp_ns p) @ be_bytes 8 (delta_ns p) @ be_bytes 4 (sequence p) @ pad"
  by (simp add: struct_image_def net_packet_def store_htobe64 store_htonl)

lemma decode_wire:
  "decode_packet h
     (struct_of_image h (be_bytes 8 t @ be_bytes 8 d @ be_bytes 4 s @ rest))
   = \<lparr>timestamp_ns = t, delta_ns = d, sequence = s\<rparr>"
  by (simp add: decode_packet_def struct_of_image_def load_be64toh load_ntohl
      of_be_bytes_be_bytes)

subsection \<open>The datagram and its size\<close>

lemma sizeof_TRNGPacket_cases:
  "align_u64 h = 8 \<Longrightarrow> sizeof_TRNGPacket h = 24"
  "align_u64 h = 4 \<Longrightarrow> sizeof_TRNGPacket h = 20"
  by (simp_all add: sizeof_TRNGPacket_def)

lemma send_packet_datagram:
  assumes "length pad = sizeof_TRNGPacket h - 20"
  shows "send_packet h True pad sent p =
           (if sent < 0 then - 1 else 0,
            Some (take (sizeof_TRNGPacket h)
                   (be_bytes 8 (timestamp_ns p) @ be_bytes 8 (delta_ns p) @
                    be_bytes 4 (sequence p) @ pad)))"
  by (simp add: send_packet_def struct_image_net_packet)

section \<open>Packets: claims\<close>

text \<open>
  C1, as the code has it. On a host where \<open>uint64_t\<close> is aligned to 8 or to 4 bytes,
  \<open>send_packet\<close> hands \<open>sendto\<close> exactly \<open>sizeof(TRNGPacket)\<close> bytes: the big-endian
  bytes of \<open>timestamp_ns\<close>, \<open>delta_ns\<close> and \<open>sequence\<close>, in this order, and then the
  padding of the struct. That is 24 bytes with 8-byte alignment and 20 with 4-byte
  alignment. The receiving loop accepts a return of \<open>recvfrom\<close> exactly when the number
  of bytes received is \<open>sizeof(TRNGPacket)\<close>; any other number is reported as an invalid
  size, nothing is printed for it, and the loop goes on with the next datagram.
\<close>

theorem wire_size_is_sizeof:
  "(align_u64 h = 8 \<or> align_u64 h = 4) \<and> length pad = sizeof_TRNGPacket h - 20 \<longrightarrow>
     snd (send_packet h True pad sent p)
       = Some (be_bytes 8 (timestamp_ns p) @ be_bytes 8 (delta_ns p) @
               be_bytes 4 (sequence p) @ pad) \<and>
     length (be_bytes 8 (timestamp_ns p) @ be_bytes 8 (delta_ns p) @
             be_bytes 4 (sequence p) @ pad) = sizeof_TRNGPacket h \<and>
     sizeof_TRNGPacket h = (if align_u64 h = 8 then 24 else 20) \<and>
     (0 \<le> received ev \<longrightarrow>
        ((\<exists>pk. receive_step h ev = Accepted pk)
           = (received ev = int (sizeof_TRNGPacket h))) \<and>
        (received ev \<noteq> int (sizeof_TRNGPacket h) \<longrightarrow>
           receive_step h ev = InvalidSize (received ev) \<and>
           receive_loop h (ev # evs) = receive_loop h evs))"
proof (intro impI)
  assume a: "(align_u64 h = 8 \<or> align_u64 h = 4) \<and> length pad = sizeof_TRNGPacket h - 20"
  then have sz: "sizeof_TRNGPacket h = (if align_u64 h = 8 then 24 else 20)"
    by (auto simp: sizeof_TRNGPacket_cases)
  let ?d = "be_bytes 8 (timestamp_ns p) @ be_bytes 8 (delta_ns p) @
             be_bytes 4 (sequence p) @ pad"
  from a sz have len: "length ?d = sizeof_TRNGPacket h"
    by (auto split: if_splits)
  from a have "snd (send_packet h True pad sent p) = Some (take (sizeof_TRNGPacket h) ?d)"
    by (simp add: send_packet_datagram)
  with len have snd: "snd (send_packet h True pad sent p) = Some ?d"
    by simp
  have rcv: "0 \<le> received ev \<longrightarrow>
        ((\<exists>pk. receive_step h ev = Accepted pk)
           = (received ev = int (sizeof_TRNGPacket h))) \<and>
        (received ev \<noteq> int (sizeof_TRNGPacket h) \<longrightarrow>
           receive_step h ev = InvalidSize (received ev) \<and>
           receive_loop h (ev # evs) = receive_loop h evs)"
    by (simp add: receive_step_def)
  from snd len sz rcv show
    "snd (send_packet h True pad sent p) = Some ?d \<and>
     length ?d = sizeof_TRNGPacket h \<and>
     sizeof_TRNGPacket h = (if align_u64 h = 8 then 24 else 20) \<and>
     (0 \<le> received ev \<longrightarrow>
        ((\<exists>pk. receive_step h ev = Accepted pk)
           = (received ev = int (sizeof_TRNGPacket h))) \<and>
        (received ev \<noteq> int (sizeof_TRNGPacket h) \<longrightarrow>
           receive_step h ev = InvalidSize (received ev) \<and>
           receive_loop h (ev # evs) = receive_loop h evs))"
    by blast
qed

theorem wire_size_is_sizeof_witness:
  "((align_u64 \<lparr>little_endian = True, align_u64 = 8\<rparr> = 8 \<or>
     align_u64 \<lparr>little_endian = True, align_u64 = 8\<rparr> = 4) \<and>
    length [0, 0, 0, 0 :: u8] = sizeof_TRNGPacket \<lparr>little_endian = True, align_u64 = 8\<rparr> - 20) \<and>
   snd (send_packet \<lparr>little_endian = True, align_u64 = 8\<rparr> True [0, 0, 0, 0] 24
          \<lparr>timestamp_ns = 0x0102030405060708, delta_ns = 2, sequence = 3\<rparr>)
     = Some [1, 2, 3, 4, 5, 6, 7, 8, 0, 0, 0, 0, 0, 0, 0, 2, 0, 0, 0, 3, 0, 0, 0, 0] \<and>
   sizeof_TRNGPacket \<lparr>little_endian = True, align_u64 = 8\<rparr> = 24 \<and>
   (0 \<le> received \<lparr>received = 24, eintr = False,
                    buffer = [1, 2, 3, 4, 5, 6, 7, 8, 0, 0, 0, 0, 0, 0, 0, 2,
                              0, 0, 0, 3, 0, 0, 0, 0]\<rparr>) \<and>
   (\<exists>pk. receive_step \<lparr>little_endian = True, align_u64 = 8\<rparr>
            \<lparr>received = 24, eintr = False,
             buffer = [1, 2, 3, 4, 5, 6, 7, 8, 0, 0, 0, 0, 0, 0, 0, 2,
                       0, 0, 0, 3, 0, 0, 0, 0]\<rparr> = Accepted pk)"
proof -
  let ?h = "\<lparr>little_endian = True, align_u64 = 8\<rparr>"
  let ?p = "\<lparr>timestamp_ns = 0x0102030405060708, delta_ns = 2, sequence = 3\<rparr>"
  let ?ev = "\<lparr>received = 24, eintr = False,
              buffer = [1, 2, 3, 4, 5, 6, 7, 8, 0, 0, 0, 0, 0, 0, 0, 2,
                        0, 0, 0, 3, 0, 0, 0, 0 :: u8]\<rparr>"
  have sz: "sizeof_TRNGPacket ?h = 24"
    by (simp add: sizeof_TRNGPacket_def)
  have hyp: "(align_u64 ?h = 8 \<or> align_u64 ?h = 4) \<and>
    length [0, 0, 0, 0 :: u8] = sizeof_TRNGPacket ?h - 20"
    by (simp add: sz)
  have bytes: "be_bytes 8 (timestamp_ns ?p) @ be_bytes 8 (delta_ns ?p) @
      be_bytes 4 (sequence ?p) @ [0, 0, 0, 0]
      = [1, 2, 3, 4, 5, 6, 7, 8, 0, 0, 0, 0, 0, 0, 0, 2, 0, 0, 0, 3, 0, 0, 0, 0]"
    by (simp add: be_bytes_def le_bytes_def byte_of_def upt_rec)
  have r: "0 \<le> received ?ev" "received ?ev = int (sizeof_TRNGPacket ?h)"
    by (simp_all add: sz)
  from wire_size_is_sizeof [of ?h "[0, 0, 0, 0]" 24 ?p ?ev "[]"] hyp
  have "snd (send_packet ?h True [0, 0, 0, 0] 24 ?p)
       = Some (be_bytes 8 (timestamp_ns ?p) @ be_bytes 8 (delta_ns ?p) @
               be_bytes 4 (sequence ?p) @ [0, 0, 0, 0])"
    and "(\<exists>pk. receive_step ?h ?ev = Accepted pk) = (received ?ev = int (sizeof_TRNGPacket ?h))"
    using r by blast+
  with bytes r hyp sz show ?thesis by simp
qed

text \<open>
  C1 as stated fails where \<open>uint64_t\<close> is aligned to 8 bytes: the datagram sent has 24
  bytes, and a datagram of exactly 20 bytes is discarded as of invalid size.
\<close>

theorem datagram_has_24_bytes:
  "snd (send_packet \<lparr>little_endian = True, align_u64 = 8\<rparr> True [0, 0, 0, 0] 24
          \<lparr>timestamp_ns = 0x0102030405060708, delta_ns = 2, sequence = 3\<rparr>)
     = Some [1, 2, 3, 4, 5, 6, 7, 8, 0, 0, 0, 0, 0, 0, 0, 2, 0, 0, 0, 3, 0, 0, 0, 0] \<and>
   length [1, 2, 3, 4, 5, 6, 7, 8, 0, 0, 0, 0, 0, 0, 0, 2, 0, 0, 0, 3, 0, 0, 0, 0 :: u8]
     = 24 \<and>
   receive_step \<lparr>little_endian = True, align_u64 = 8\<rparr>
     \<lparr>received = 20, eintr = False,
      buffer = [1, 2, 3, 4, 5, 6, 7, 8, 0, 0, 0, 0, 0, 0, 0, 2, 0, 0, 0, 3, 0, 0, 0, 0]\<rparr>
     = InvalidSize 20"
  by (simp add: send_packet_def struct_image_net_packet sizeof_TRNGPacket_def
      receive_step_def be_bytes_def le_bytes_def byte_of_def upt_rec)

text \<open>
  C6. Decoding what was encoded gives the packet back, for all field values, on every
  host and whatever the padding holds; and the datagram that \<open>send_packet\<close> sends is
  accepted by the receiving loop as that packet.
\<close>

theorem packet_round_trip:
  "decode_packet h (struct_of_image h (struct_image h pad (net_packet h p))) = p \<and>
   ((align_u64 h = 8 \<or> align_u64 h = 4) \<and> length pad = sizeof_TRNGPacket h - 20 \<longrightarrow>
      (\<exists>d. snd (send_packet h True pad sent p) = Some d \<and>
           receive_step h \<lparr>received = int (length d), eintr = e, buffer = d\<rparr> = Accepted p \<and>
           receive_loop h [\<lparr>received = int (length d), eintr = e, buffer = d\<rparr>]
             = [delta_ns p]))"
proof (intro conjI impI)
  have p: "\<lparr>timestamp_ns = timestamp_ns p, delta_ns = delta_ns p, sequence = sequence p\<rparr> = p"
    by simp
  show rt: "decode_packet h (struct_of_image h (struct_image h pad (net_packet h p))) = p"
    by (simp only: struct_image_net_packet decode_wire p)
  assume a: "(align_u64 h = 8 \<or> align_u64 h = 4) \<and> length pad = sizeof_TRNGPacket h - 20"
  let ?d = "struct_image h pad (net_packet h p)"
  from a have sz: "sizeof_TRNGPacket h = (if align_u64 h = 8 then 24 else 20)"
    by (auto simp: sizeof_TRNGPacket_cases)
  with a have len: "length ?d = sizeof_TRNGPacket h"
    by (auto simp: struct_image_net_packet split: if_splits)
  then have snd: "snd (send_packet h True pad sent p) = Some ?d"
    by (simp add: send_packet_def)
  have step: "receive_step h \<lparr>received = int (length ?d), eintr = e, buffer = ?d\<rparr> = Accepted p"
    using len rt by (simp add: receive_step_def)
  then have "receive_loop h [\<lparr>received = int (length ?d), eintr = e, buffer = ?d\<rparr>]
             = [delta_ns p]"
    by simp
  with snd step show "\<exists>d. snd (send_packet h True pad sent p) = Some d \<and>
           receive_step h \<lparr>received = int (length d), eintr = e, buffer = d\<rparr> = Accepted p \<and>
           receive_loop h [\<lparr>received = int (length d), eintr = e, buffer = d\<rparr>]
             = [delta_ns p]"
    by blast
qed

theorem packet_round_trip_witness:
  "((align_u64 \<lparr>little_endian = True, align_u64 = 8\<rparr> = 8 \<or>
     align_u64 \<lparr>little_endian = True, align_u64 = 8\<rparr> = 4) \<and>
    length [0, 0, 0, 0 :: u8] = sizeof_TRNGPacket \<lparr>little_endian = True, align_u64 = 8\<rparr> - 20) \<and>
   (\<exists>d. snd (send_packet \<lparr>little_endian = True, align_u64 = 8\<rparr> True [0, 0, 0, 0] 24
               \<lparr>timestamp_ns = 0x0102030405060708, delta_ns = 2, sequence = 3\<rparr>) = Some d \<and>
        receive_step \<lparr>little_endian = True, align_u64 = 8\<rparr>
          \<lparr>received = int (length d), eintr = False, buffer = d\<rparr>
          = Accepted \<lparr>timestamp_ns = 0x0102030405060708, delta_ns = 2, sequence = 3\<rparr>)"
proof -
  let ?h = "\<lparr>little_endian = True, align_u64 = 8\<rparr>"
  have hyp: "(align_u64 ?h = 8 \<or> align_u64 ?h = 4) \<and>
    length [0, 0, 0, 0 :: u8] = sizeof_TRNGPacket ?h - 20"
    by (simp add: sizeof_TRNGPacket_def)
  from packet_round_trip
    [of ?h "[0, 0, 0, 0]" "\<lparr>timestamp_ns = 0x0102030405060708, delta_ns = 2, sequence = 3\<rparr>"
        24 False] hyp
  show ?thesis by blast
qed

end
